theory Spec2Isabelle
  imports Main "HOL-Library.AList"
begin

section \<open>Data model\<close>

text \<open>
  The visitors of \<^verbatim>\<open>py2c/tree/visitors.py\<close> walk Python objects. The values a
  traversal can meet are modelled by the datatype \<open>val\<close>: \<open>None\<close>, the class attribute
  \<open>BaseTreeVisitor.NONE_SENTINEL\<close> (one fresh \<open>object()\<close>, compared with \<open>is\<close>), opaque
  leaves, the iterable builtins a handler can return (strings, tuples, lists), and
  instances of the root class (\<open>isinstance(value, self.root_class)\<close> holds exactly of
  \<open>NodeV\<close>, \<open>isinstance(value, list)\<close> exactly of \<open>ListV\<close>).
\<close>

text \<open>
  Modelled from the spec: the class \<open>Node\<close> of \<^verbatim>\<open>py2c.tree\<close>, the default
  \<open>root_class\<close>, is not part of \<^verbatim>\<open>visitors.py\<close>. The spec describes a Node as an
  opaque element with a type tag and a fixed, type-determined set of named fields, each
  holding a leaf, a child Node, a sequence or nothing. A node is therefore its class (the
  name \<open>__name__\<close>, the module, the bases and the declared field names) and its instance
  attributes, an association list read with \<open>map_of\<close> as Python reads the instance
  dictionary. The tree is a value: no object is shared between two positions, as the
  spec requires of the producer. A Node is not itself iterable. The declared field names
  of a class are meant to be distinct (the spec speaks of a set of fields); the theorems
  that need it assume it.
\<close>

record pyclass =
  cname :: string
  cmodule :: string
  cbases :: "string list"
  cfields :: "string list"

datatype val =
    NoneV
  | Sentinel
  | Leaf int
  | StrV string
  | TupleV "val list"
  | ListV "val list"
  | NodeV node
and node = Node (cls: pyclass) (attrs: "(string \<times> val) list")

datatype error = NotImplementedError | AttributeError | Raised string

text \<open>
  Modelled from the spec: \<open>iter_fields\<close> of \<^verbatim>\<open>py2c.tree\<close> is not part of the sources at
  hand. The spec gives it as a pure query that yields the (name, value) pairs of the
  fields the node's type declares, in the declared order, and that does not report a
  field that is absent from the node.
\<close>

definition iter_fields :: "node \<Rightarrow> (string \<times> val) list" where
  "iter_fields node =
     List.map_filter (\<lambda>field. map_option (Pair field) (map_of (attrs node) field))
       (cfields (cls node))"

text \<open>The builtins \<open>getattr\<close> (with a default), \<open>setattr\<close> and \<open>delattr\<close> on a node.\<close>

definition getattr :: "node \<Rightarrow> string \<Rightarrow> val \<Rightarrow> val" where
  "getattr node field dflt = (case map_of (attrs node) field of Some v \<Rightarrow> v | None \<Rightarrow> dflt)"

definition setattr :: "node \<Rightarrow> string \<Rightarrow> val \<Rightarrow> node" where
  "setattr node field v = Node (cls node) (AList.update field v (attrs node))"

definition delattr :: "node \<Rightarrow> string \<Rightarrow> error + node" where
  "delattr node field =
     (if field \<in> fst ` set (attrs node)
      then Inr (Node (cls node) (AList.delete field (attrs node)))
      else Inl AttributeError)"

text \<open>
  \<open>isinstance(value, collections.Iterable)\<close>, as in the Python versions that have this
  name (3.3 to 3.9): \<open>py_iter\<close> gives the elements that \<open>list.extend\<close> would append, or
  \<open>None\<close> for a value that is not iterable. Iterating a string yields its characters as
  one-character strings.
\<close>

fun py_iter :: "val \<Rightarrow> val list option" where
  "py_iter (StrV s) = Some (map (\<lambda>c. StrV [c]) s)"
| "py_iter (TupleV xs) = Some xs"
| "py_iter (ListV xs) = Some xs"
| "py_iter _ = None"

section \<open>BaseTreeVisitor\<close>

text \<open>
  A visitor instance is the table of its \<open>visit_<ClassName>\<close> attributes; a handler gets
  the node and returns a value or raises. \<open>BaseTreeVisitor_visit\<close> is the method
  \<open>visit\<close>: it looks the attribute \<open>'visit_' + node.__class__.__name__\<close> up on the
  instance, with \<open>self.generic_visit\<close> as the default of \<open>getattr\<close>, and calls the
  result on the node.
\<close>

definition BaseTreeVisitor_resolve :: "(string \<rightharpoonup> (node \<Rightarrow> 'r)) \<Rightarrow> (node \<Rightarrow> 'r) \<Rightarrow> node \<Rightarrow> (node \<Rightarrow> 'r)" where
  "BaseTreeVisitor_resolve self_attrs generic_visit node =
     (let method = ''visit_'' @ cname (cls node)
      in case self_attrs method of Some visitor \<Rightarrow> visitor | None \<Rightarrow> generic_visit)"

definition BaseTreeVisitor_visit :: "(string \<rightharpoonup> (node \<Rightarrow> 'r)) \<Rightarrow> (node \<Rightarrow> 'r) \<Rightarrow> node \<Rightarrow> 'r" where
  "BaseTreeVisitor_visit self_attrs generic_visit node =
     (BaseTreeVisitor_resolve self_attrs generic_visit node) node"

definition BaseTreeVisitor_children_visit :: "node \<Rightarrow> error + unit" where
  "BaseTreeVisitor_children_visit node = Inl NotImplementedError"

section \<open>RecursiveTreeTransformer\<close>

text \<open>
  The methods of a traversal class call \<open>self.visit\<close>, which a subclass is free to
  override; they are therefore written over the bound method \<open>visit\<close>, and each class
  closes the recursion in its own \<open>visit\<close> below.
\<close>

subsection \<open>\<open>_visit_list\<close>\<close>

text \<open>
  The variables of \<open>_visit_list\<close>: the list object it was given and the list it builds.
  The \<open>for\<close> loop reads the list object by position, as Python's list iterator does, so
  a change of the list during the loop would be seen by the later iterations.
\<close>

record list_state =
  original_list :: "val list"
  new_list :: "val list"

text \<open>
  One iteration of the loop, for the element \<open>value\<close>:
  \<^verbatim>\<open>
  if isinstance(value, self.root_class):
      value = self.visit(value)
      if value is None:
          continue
      elif value is self.NONE_SENTINEL:
          value = None
      elif isinstance(value, collections.Iterable):
          new_list.extend(value)
          continue
  new_list.append(value)
  \<close>
\<close>

definition visit_list_body :: "(node \<Rightarrow> error + val) \<Rightarrow> val \<Rightarrow> list_state \<Rightarrow> error + list_state" where
  "visit_list_body visit value st =
     (case value of
        NodeV n \<Rightarrow>
          (case visit n of
             Inl e \<Rightarrow> Inl e
           | Inr value' \<Rightarrow>
               if value' = NoneV then Inr st
               else if value' = Sentinel then Inr (st\<lparr>new_list := new_list st @ [NoneV]\<rparr>)
               else (case py_iter value' of
                       Some elems \<Rightarrow> Inr (st\<lparr>new_list := new_list st @ elems\<rparr>)
                     | None \<Rightarrow> Inr (st\<lparr>new_list := new_list st @ [value']\<rparr>)))
      | _ \<Rightarrow> Inr (st\<lparr>new_list := new_list st @ [value]\<rparr>))"

lemma visit_list_body_original:
  "visit_list_body visit value st = Inr st' \<Longrightarrow> original_list st' = original_list st"
  by (auto simp: visit_list_body_def split: val.splits sum.splits if_splits option.splits)

function visit_list_loop :: "(node \<Rightarrow> error + val) \<Rightarrow> nat \<Rightarrow> list_state \<Rightarrow> error + list_state" where
  "visit_list_loop visit i st =
     (if i < length (original_list st)
      then (case visit_list_body visit (original_list st ! i) st of
              Inl e \<Rightarrow> Inl e
            | Inr st' \<Rightarrow> visit_list_loop visit (Suc i) st')
      else Inr st)"
  by pat_completeness auto
termination
  by (relation "measure (\<lambda>(visit, i, st). length (original_list st) - i)")
     (auto dest: visit_list_body_original)

text \<open>
  \<open>_visit_list\<close>: the loop from an empty \<open>new_list\<close>, then the slice assignment
  \<open>original_list[:] = new_list\<close>. The result is the content of the list object after
  the call.
\<close>

definition RecursiveTreeTransformer_visit_list :: "(node \<Rightarrow> error + val) \<Rightarrow> val list \<Rightarrow> error + val list" where
  "RecursiveTreeTransformer_visit_list visit original =
     (case visit_list_loop visit 0 \<lparr>original_list = original, new_list = []\<rparr> of
        Inl e \<Rightarrow> Inl e
      | Inr st \<Rightarrow> Inr (original_list (st\<lparr>original_list := new_list st\<rparr>)))"

subsection \<open>\<open>children_visit\<close>\<close>

text \<open>
  A list field keeps pointing at the same list object, whose content \<open>_visit_list\<close>
  has replaced.
\<close>

definition store_list :: "node \<Rightarrow> string \<Rightarrow> val list \<Rightarrow> node" where
  "store_list node field xs = Node (cls node) (AList.update field (ListV xs) (attrs node))"

text \<open>
  The body of the loop of \<open>children_visit\<close>, for one pair of \<open>iter_fields\<close>:
  \<^verbatim>\<open>
  if isinstance(old_value, list):
      self._visit_list(old_value)
  elif isinstance(old_value, self.root_class):
      new_node = self.visit(old_value)
      if new_node is None:
          delattr(node, field)
      elif new_node is self.NONE_SENTINEL:
          new_node = None
      setattr(node, field, new_node)
  \<close>
  The \<open>setattr\<close> stands after the \<open>if\<close> statement, so it runs in each of its three
  cases.
\<close>

definition transformer_field :: "(node \<Rightarrow> error + val) \<Rightarrow> string \<Rightarrow> val \<Rightarrow> node \<Rightarrow> error + node" where
  "transformer_field visit field old_value node =
     (case old_value of
        ListV original \<Rightarrow>
          (case RecursiveTreeTransformer_visit_list visit original of
             Inl e \<Rightarrow> Inl e
           | Inr rebuilt \<Rightarrow> Inr (store_list node field rebuilt))
      | NodeV child \<Rightarrow>
          (case visit child of
             Inl e \<Rightarrow> Inl e
           | Inr new_node \<Rightarrow>
               (case (if new_node = NoneV
                      then (case delattr node field of
                              Inl e \<Rightarrow> Inl e
                            | Inr node' \<Rightarrow> Inr (node', new_node))
                      else if new_node = Sentinel then Inr (node, NoneV)
                      else Inr (node, new_node)) of
                  Inl e \<Rightarrow> Inl e
                | Inr (node', new_node') \<Rightarrow> Inr (setattr node' field new_node')))
      | _ \<Rightarrow> Inr node)"

fun children_visit_loop :: "(node \<Rightarrow> error + val) \<Rightarrow> (string \<times> val) list \<Rightarrow> node \<Rightarrow> error + node" where
  "children_visit_loop visit [] node = Inr node"
| "children_visit_loop visit ((field, old_value) # rest) node =
     (case transformer_field visit field old_value node of
        Inl e \<Rightarrow> Inl e
      | Inr node' \<Rightarrow> children_visit_loop visit rest node')"

text \<open>\<open>children_visit\<close> edits the node in place; the result is the node after the call.\<close>

definition RecursiveTreeTransformer_children_visit :: "(node \<Rightarrow> error + val) \<Rightarrow> node \<Rightarrow> error + node" where
  "RecursiveTreeTransformer_children_visit visit node = children_visit_loop visit (iter_fields node) node"

subsection \<open>The children of a node\<close>

text \<open>
  The Nodes one step below a node: the Node values of its enumerated fields and the Node
  elements of their lists, in the order of the enumeration.
\<close>

fun list_nodes :: "val list \<Rightarrow> node list" where
  "list_nodes [] = []"
| "list_nodes (NodeV n # xs) = n # list_nodes xs"
| "list_nodes (_ # xs) = list_nodes xs"

fun value_nodes :: "val \<Rightarrow> node list" where
  "value_nodes (NodeV child) = [child]"
| "value_nodes (ListV xs) = list_nodes xs"
| "value_nodes _ = []"

definition child_nodes :: "node \<Rightarrow> node list" where
  "child_nodes node = concat (map (\<lambda>(field, value). value_nodes value) (iter_fields node))"

lemma set_list_nodes: "n \<in> set (list_nodes xs) \<longleftrightarrow> NodeV n \<in> set xs"
  by (induction xs rule: list_nodes.induct) auto

lemma set_value_nodes:
  "n \<in> set (value_nodes v) \<longleftrightarrow> v = NodeV n \<or> (\<exists>xs. v = ListV xs \<and> NodeV n \<in> set xs)"
  by (cases v) (auto simp: set_list_nodes)

lemma set_child_nodes:
  "n \<in> set (child_nodes node) \<longleftrightarrow>
     (\<exists>field v. (field, v) \<in> set (iter_fields node) \<and> n \<in> set (value_nodes v))"
  by (auto simp: child_nodes_def)

subsection \<open>\<open>visit\<close> and \<open>generic_visit\<close>\<close>

text \<open>
  The methods use \<open>visit\<close> on the children of the node only; this is what makes the
  recursion of \<open>visit\<close> well-founded on a tree.
\<close>

lemma visit_list_body_cong:
  "(\<And>n. value = NodeV n \<Longrightarrow> f n = g n) \<Longrightarrow> visit_list_body f value st = visit_list_body g value st"
  by (cases "value") (simp_all add: visit_list_body_def)

lemma visit_list_loop_cong:
  "(\<And>n. NodeV n \<in> set (original_list st) \<Longrightarrow> f n = g n) \<Longrightarrow>
   visit_list_loop f i st = visit_list_loop g i st"
proof (induction f i st rule: visit_list_loop.induct)
  case (1 visit i st)
  show ?case
  proof (cases "i < length (original_list st)")
    case True
    have b: "visit_list_body visit (original_list st ! i) st = visit_list_body g (original_list st ! i) st"
      using True 1(2) by (intro visit_list_body_cong) (metis nth_mem)
    show ?thesis
    proof (cases "visit_list_body g (original_list st ! i) st")
      case (Inl e)
      with b True show ?thesis by simp
    next
      case (Inr st')
      have o: "original_list st' = original_list st"
        using Inr by (rule visit_list_body_original)
      have "visit_list_loop visit (Suc i) st' = visit_list_loop g (Suc i) st'"
        using 1(1)[OF True] b Inr 1(2) o by simp
      with b True Inr show ?thesis by simp
    qed
  next
    case False
    then show ?thesis by simp
  qed
qed

lemma Transformer_visit_list_cong [fundef_cong]:
  "xs = ys \<Longrightarrow> (\<And>n. NodeV n \<in> set ys \<Longrightarrow> f n = g n) \<Longrightarrow>
   RecursiveTreeTransformer_visit_list f xs = RecursiveTreeTransformer_visit_list g ys"
  unfolding RecursiveTreeTransformer_visit_list_def
  using visit_list_loop_cong[of "\<lparr>original_list = ys, new_list = []\<rparr>" f g 0] by simp

lemma transformer_field_cong:
  "(\<And>n. value = NodeV n \<Longrightarrow> f n = g n) \<Longrightarrow>
   (\<And>xs n. value = ListV xs \<Longrightarrow> NodeV n \<in> set xs \<Longrightarrow> f n = g n) \<Longrightarrow>
   transformer_field f field value node = transformer_field g field value node"
  by (cases "value") (simp_all add: transformer_field_def cong: Transformer_visit_list_cong)

lemma child_nodes_NodeV:
  "(field, NodeV n) \<in> set (iter_fields node) \<Longrightarrow> n \<in> set (child_nodes node)"
  unfolding set_child_nodes by (intro exI[of _ field] exI[of _ "NodeV n"]) simp

lemma child_nodes_ListV:
  "(field, ListV xs) \<in> set (iter_fields node) \<Longrightarrow> NodeV n \<in> set xs \<Longrightarrow> n \<in> set (child_nodes node)"
  unfolding set_child_nodes by (intro exI[of _ field] exI[of _ "ListV xs"]) (simp add: set_list_nodes)

lemma children_visit_loop_cong:
  "(\<And>field value node'. (field, value) \<in> set ps \<Longrightarrow>
      transformer_field f field value node' = transformer_field g field value node') \<Longrightarrow>
   children_visit_loop f ps node = children_visit_loop g ps node"
proof (induction ps arbitrary: node)
  case Nil
  show ?case by simp
next
  case (Cons p ps)
  obtain field v where p: "p = (field, v)" by (cases p)
  have step: "transformer_field f field v node = transformer_field g field v node"
    using Cons.prems[of field v node] p by simp
  have rest: "children_visit_loop f ps node' = children_visit_loop g ps node'" for node'
    by (rule Cons.IH) (simp add: Cons.prems)
  show ?case by (simp add: p step rest split: sum.splits)
qed

lemma Transformer_children_visit_cong [fundef_cong]:
  "node = node' \<Longrightarrow> (\<And>n. n \<in> set (child_nodes node') \<Longrightarrow> f n = g n) \<Longrightarrow>
   RecursiveTreeTransformer_children_visit f node = RecursiveTreeTransformer_children_visit g node'"
proof -
  assume eq: "node = node'" and fg: "\<And>n. n \<in> set (child_nodes node') \<Longrightarrow> f n = g n"
  have "transformer_field f field value n' = transformer_field g field value n'"
    if "(field, value) \<in> set (iter_fields node')" for field "value" n'
  proof (rule transformer_field_cong)
    fix n assume "value = NodeV n"
    with that show "f n = g n" by (intro fg) (auto dest: child_nodes_NodeV)
  next
    fix xs n assume "value = ListV xs" "NodeV n \<in> set xs"
    with that show "f n = g n" by (intro fg) (auto dest: child_nodes_ListV)
  qed
  then show ?thesis
    unfolding RecursiveTreeTransformer_children_visit_def eq
    by (rule children_visit_loop_cong)
qed

lemma BaseTreeVisitor_visit_cong [fundef_cong]:
  "h = h' \<Longrightarrow> node = node' \<Longrightarrow> f node' = g node' \<Longrightarrow>
   BaseTreeVisitor_visit h f node = BaseTreeVisitor_visit h' g node'"
  by (simp add: BaseTreeVisitor_visit_def BaseTreeVisitor_resolve_def split: option.splits)

lemma iter_fields_in_attrs: "(field, v) \<in> set (iter_fields node) \<Longrightarrow> (field, v) \<in> set (attrs node)"
  by (auto simp: iter_fields_def List.map_filter_def dest: map_of_SomeD)

lemma size_attr_le: "(field, v) \<in> set xs \<Longrightarrow> size v \<le> size_list (size_prod (\<lambda>x. 0) size) xs"
  by (induction xs) auto

lemma size_elem_le: "x \<in> set xs \<Longrightarrow> size x \<le> size_list size xs"
  by (induction xs) auto

lemma child_nodes_size: "n \<in> set (child_nodes node) \<Longrightarrow> size n < size node"
proof -
  assume "n \<in> set (child_nodes node)"
  then obtain field v where fv: "(field, v) \<in> set (iter_fields node)"
    and v: "v = NodeV n \<or> (\<exists>xs. v = ListV xs \<and> NodeV n \<in> set xs)"
    unfolding set_child_nodes set_value_nodes by blast
  have "size n < size v"
    using v by (auto dest: size_elem_le)
  moreover have "size v \<le> size_list (size_prod (\<lambda>x. 0) size) (attrs node)"
    using fv by (intro size_attr_le) (rule iter_fields_in_attrs)
  ultimately show ?thesis by (cases node) simp
qed

text \<open>
  A visitor instance: its handlers, by attribute name (\<open>visit_Name\<close>). The constructor's
  \<open>root_class\<close> and \<open>iter_fields\<close> are the defaults modelled above. A handler is a
  function of the node it is given: it returns a value or raises, and it does not call
  back into the visitor. The properties of \<open>_visit_list\<close> and \<open>children_visit\<close> below are
  proved for any \<open>visit\<close>, not only for one made of such handlers.

  \<open>RecursiveTreeTransformer\<close> inherits \<open>visit\<close> from \<open>BaseTreeVisitor\<close>; its
  \<open>generic_visit\<close> is \<^verbatim>\<open>self.children_visit(node)\<close> and nothing else, so it returns
  \<open>None\<close>.
\<close>

record visitor =
  handlers :: "string \<rightharpoonup> (node \<Rightarrow> error + val)"

function RecursiveTreeTransformer_visit :: "visitor \<Rightarrow> node \<Rightarrow> error + val" where
  "RecursiveTreeTransformer_visit self node =
     BaseTreeVisitor_visit (handlers self)
       (\<lambda>node. case RecursiveTreeTransformer_children_visit (RecursiveTreeTransformer_visit self) node of
                 Inl e \<Rightarrow> Inl e
               | Inr _ \<Rightarrow> Inr NoneV)
       node"
  by pat_completeness auto
termination
  by (relation "measure (\<lambda>(self, node). size node)") (simp_all add: child_nodes_size)

definition RecursiveTreeTransformer_generic_visit :: "visitor \<Rightarrow> node \<Rightarrow> error + val" where
  "RecursiveTreeTransformer_generic_visit self node =
     (case RecursiveTreeTransformer_children_visit (RecursiveTreeTransformer_visit self) node of
        Inl e \<Rightarrow> Inl e
      | Inr _ \<Rightarrow> Inr NoneV)"

section \<open>RecursiveTreeVisitor\<close>

text \<open>
  The read-only traversal changes nothing and returns nothing: what it does is the
  sequence of its calls of \<open>visit\<close>. The state threaded through its methods is that
  sequence, the nodes \<open>visit\<close> was called on so far, in order. \<open>visit\<close> takes a node, so
  no other value can be passed to it or to a handler.
  \<^verbatim>\<open>
  def children_visit(self, node):
      for field, value in self.iter_fields(node):
          value = getattr(node, field, None)
          if isinstance(value, list):
              self._visit_list(value)
          elif isinstance(value, self.root_class):
              self.visit(value)

  def _visit_list(self, original_list):
      for value in original_list:
          if isinstance(value, self.root_class):
              self.visit(value)
  \<close>
\<close>

type_synonym trace = "node list"

fun RecursiveTreeVisitor_visit_list ::
  "(node \<Rightarrow> trace \<Rightarrow> error + (val \<times> trace)) \<Rightarrow> val list \<Rightarrow> trace \<Rightarrow> error + trace" where
  "RecursiveTreeVisitor_visit_list visit [] tr = Inr tr"
| "RecursiveTreeVisitor_visit_list visit (value # rest) tr =
     (case value of
        NodeV n \<Rightarrow>
          (case visit n tr of
             Inl e \<Rightarrow> Inl e
           | Inr (_, tr') \<Rightarrow> RecursiveTreeVisitor_visit_list visit rest tr')
      | _ \<Rightarrow> RecursiveTreeVisitor_visit_list visit rest tr)"

definition visitor_field ::
  "(node \<Rightarrow> trace \<Rightarrow> error + (val \<times> trace)) \<Rightarrow> node \<Rightarrow> string \<Rightarrow> trace \<Rightarrow> error + trace" where
  "visitor_field visit node field tr =
     (let value = getattr node field NoneV
      in case value of
           ListV xs \<Rightarrow> RecursiveTreeVisitor_visit_list visit xs tr
         | NodeV child \<Rightarrow> (case visit child tr of Inl e \<Rightarrow> Inl e | Inr (_, tr') \<Rightarrow> Inr tr')
         | _ \<Rightarrow> Inr tr)"

fun visitor_fields_loop ::
  "(node \<Rightarrow> trace \<Rightarrow> error + (val \<times> trace)) \<Rightarrow> node \<Rightarrow> (string \<times> val) list \<Rightarrow> trace \<Rightarrow> error + trace" where
  "visitor_fields_loop visit node [] tr = Inr tr"
| "visitor_fields_loop visit node ((field, value) # rest) tr =
     (case visitor_field visit node field tr of
        Inl e \<Rightarrow> Inl e
      | Inr tr' \<Rightarrow> visitor_fields_loop visit node rest tr')"

definition RecursiveTreeVisitor_children_visit ::
  "(node \<Rightarrow> trace \<Rightarrow> error + (val \<times> trace)) \<Rightarrow> node \<Rightarrow> trace \<Rightarrow> error + trace" where
  "RecursiveTreeVisitor_children_visit visit node tr = visitor_fields_loop visit node (iter_fields node) tr"

lemma Visitor_visit_list_cong [fundef_cong]:
  "xs = ys \<Longrightarrow> tr = tr' \<Longrightarrow> (\<And>n t. NodeV n \<in> set ys \<Longrightarrow> f n t = g n t) \<Longrightarrow>
   RecursiveTreeVisitor_visit_list f xs tr = RecursiveTreeVisitor_visit_list g ys tr'"
proof -
  assume fg: "\<And>n t. NodeV n \<in> set ys \<Longrightarrow> f n t = g n t"
  have "RecursiveTreeVisitor_visit_list f zs t = RecursiveTreeVisitor_visit_list g zs t"
    if "set zs \<subseteq> set ys" for zs t
    using that
  proof (induction zs arbitrary: t)
    case Nil
    show ?case by simp
  next
    case (Cons z zs)
    have rest: "RecursiveTreeVisitor_visit_list f zs t' = RecursiveTreeVisitor_visit_list g zs t'" for t'
      using Cons.prems by (intro Cons.IH) simp
    show ?case
    proof (cases z)
      case (NodeV n)
      then have "f n t = g n t" using Cons.prems by (intro fg) simp
      with NodeV rest show ?thesis by (simp split: sum.splits prod.splits)
    qed (simp_all add: rest)
  qed
  moreover assume "xs = ys" "tr = tr'"
  ultimately show ?thesis by simp
qed

lemma iter_fields_getattr: "(field, v) \<in> set (iter_fields node) \<Longrightarrow> getattr node field d = v"
  by (auto simp: iter_fields_def List.map_filter_def getattr_def)

lemma visitor_field_cong:
  "(field, v) \<in> set (iter_fields node) \<Longrightarrow>
   (\<And>n t. n \<in> set (child_nodes node) \<Longrightarrow> f n t = g n t) \<Longrightarrow>
   visitor_field f node field tr = visitor_field g node field tr"
proof -
  assume fv: "(field, v) \<in> set (iter_fields node)"
    and fg: "\<And>n t. n \<in> set (child_nodes node) \<Longrightarrow> f n t = g n t"
  have g: "getattr node field NoneV = v" using fv by (rule iter_fields_getattr)
  show ?thesis
  proof (cases v)
    case (NodeV n)
    have "f n tr = g n tr" using fv NodeV by (intro fg) (auto dest: child_nodes_NodeV)
    with g NodeV show ?thesis by (simp add: visitor_field_def)
  next
    case (ListV xs)
    have "RecursiveTreeVisitor_visit_list f xs tr = RecursiveTreeVisitor_visit_list g xs tr"
      using fv ListV by (intro Visitor_visit_list_cong refl fg) (auto dest: child_nodes_ListV)
    with g ListV show ?thesis by (simp add: visitor_field_def)
  qed (simp_all add: visitor_field_def g)
qed

lemma visitor_fields_loop_cong:
  "set ps \<subseteq> set (iter_fields node) \<Longrightarrow>
   (\<And>n t. n \<in> set (child_nodes node) \<Longrightarrow> f n t = g n t) \<Longrightarrow>
   visitor_fields_loop f node ps tr = visitor_fields_loop g node ps tr"
proof (induction ps arbitrary: tr)
  case Nil
  show ?case by simp
next
  case (Cons p ps)
  obtain field v where p: "p = (field, v)" by (cases p)
  have step: "visitor_field f node field tr = visitor_field g node field tr"
    using Cons.prems p by (intro visitor_field_cong[of field v]) auto
  have rest: "visitor_fields_loop f node ps t' = visitor_fields_loop g node ps t'" for t'
    using Cons.prems by (intro Cons.IH) auto
  show ?case by (simp add: p step rest split: sum.splits)
qed

lemma Visitor_children_visit_cong [fundef_cong]:
  "node = node' \<Longrightarrow> tr = tr' \<Longrightarrow> (\<And>n t. n \<in> set (child_nodes node') \<Longrightarrow> f n t = g n t) \<Longrightarrow>
   RecursiveTreeVisitor_children_visit f node tr = RecursiveTreeVisitor_children_visit g node' tr'"
proof -
  assume "\<And>n t. n \<in> set (child_nodes node') \<Longrightarrow> f n t = g n t"
  then have "visitor_fields_loop f node' (iter_fields node') tr' = visitor_fields_loop g node' (iter_fields node') tr'"
    by (intro visitor_fields_loop_cong subset_refl)
  moreover assume "node = node'" "tr = tr'"
  ultimately show ?thesis by (simp add: RecursiveTreeVisitor_children_visit_def)
qed

lemma BaseTreeVisitor_visit_cong1 [fundef_cong]:
  "h = h' \<Longrightarrow> node = node' \<Longrightarrow> tr = tr' \<Longrightarrow> f node' tr' = g node' tr' \<Longrightarrow>
   BaseTreeVisitor_visit h f node tr = BaseTreeVisitor_visit h' g node' tr'"
  by (simp add: BaseTreeVisitor_visit_def BaseTreeVisitor_resolve_def split: option.splits)

text \<open>
  A handler of a read-only visitor returns a value (which \<open>visit\<close> passes on and the
  traversal ignores) or raises; it makes no call of \<open>visit\<close> of its own.
\<close>

definition read_only_handler :: "(node \<Rightarrow> error + val) \<Rightarrow> node \<Rightarrow> trace \<Rightarrow> error + (val \<times> trace)" where
  "read_only_handler h node tr = (case h node of Inl e \<Rightarrow> Inl e | Inr v \<Rightarrow> Inr (v, tr))"

function RecursiveTreeVisitor_visit :: "visitor \<Rightarrow> node \<Rightarrow> trace \<Rightarrow> error + (val \<times> trace)" where
  "RecursiveTreeVisitor_visit self node tr =
     BaseTreeVisitor_visit (\<lambda>method. map_option read_only_handler (handlers self method))
       (\<lambda>node tr. case RecursiveTreeVisitor_children_visit (RecursiveTreeVisitor_visit self) node tr of
                    Inl e \<Rightarrow> Inl e
                  | Inr tr' \<Rightarrow> Inr (NoneV, tr'))
       node (tr @ [node])"
  by pat_completeness auto
termination
  by (relation "measure (\<lambda>(self, node, tr). size node)") (simp_all add: child_nodes_size)

definition RecursiveTreeVisitor_generic_visit :: "visitor \<Rightarrow> node \<Rightarrow> trace \<Rightarrow> error + (val \<times> trace)" where
  "RecursiveTreeVisitor_generic_visit self node tr =
     (case RecursiveTreeVisitor_children_visit (RecursiveTreeVisitor_visit self) node tr of
        Inl e \<Rightarrow> Inl e
      | Inr tr' \<Rightarrow> Inr (NoneV, tr'))"

text \<open>
  The defining equations of the recursive functions are unfolded by hand where a proof
  needs them.
\<close>

declare visit_list_loop.simps [simp del]

declare RecursiveTreeTransformer_visit.simps [simp del]

declare RecursiveTreeVisitor_visit.simps [simp del]

section \<open>The nodes of a tree\<close>

text \<open>
  The nodes reachable from a node through the enumerated fields: the node, then the
  nodes of its children, in the order of the enumeration.
\<close>

function nodes_of :: "node \<Rightarrow> node list" where
  "nodes_of node = node # concat (map nodes_of (child_nodes node))"
  by pat_completeness auto
termination
  by (relation "measure size") (simp_all add: child_nodes_size)

declare nodes_of.simps [simp del]

section \<open>Positions in a tree\<close>

text \<open>
  A Node object sits at one place of a tree. A place is named by the way to it from the
  root: a sequence of steps, each the name of a declared field and, when the field holds
  a list, the index of an element. \<open>child_at\<close> is the Node one step below a node,
  if there is one, and \<open>node_at\<close> the Node at the end of a path.
\<close>

type_synonym step = "string \<times> nat option"

fun child_at :: "node \<Rightarrow> step \<Rightarrow> node option" where
  "child_at node (field, None) =
     (if field \<in> set (cfields (cls node))
      then (case map_of (attrs node) field of Some (NodeV child) \<Rightarrow> Some child | _ \<Rightarrow> None)
      else None)"
| "child_at node (field, Some i) =
     (if field \<in> set (cfields (cls node))
      then (case map_of (attrs node) field of
              Some (ListV xs) \<Rightarrow>
                (if i < length xs then (case xs ! i of NodeV child \<Rightarrow> Some child | _ \<Rightarrow> None) else None)
            | _ \<Rightarrow> None)
      else None)"

fun node_at :: "node \<Rightarrow> step list \<Rightarrow> node option" where
  "node_at node [] = Some node"
| "node_at node (s # path) = (case child_at node s of Some child \<Rightarrow> node_at child path | None \<Rightarrow> None)"

text \<open>
  The steps that lead from a node to its children, with the children, in the order of
  the enumeration of the fields.
\<close>

definition elem_step :: "string \<Rightarrow> nat \<times> val \<Rightarrow> (step \<times> node) option" where
  "elem_step field p = (case snd p of NodeV n \<Rightarrow> Some ((field, Some (fst p)), n) | _ \<Rightarrow> None)"

definition list_steps :: "string \<Rightarrow> val list \<Rightarrow> (step \<times> node) list" where
  "list_steps field xs = List.map_filter (elem_step field) (enumerate 0 xs)"

fun value_steps :: "string \<Rightarrow> val \<Rightarrow> (step \<times> node) list" where
  "value_steps field (NodeV child) = [((field, None), child)]"
| "value_steps field (ListV xs) = list_steps field xs"
| "value_steps field _ = []"

definition child_steps :: "node \<Rightarrow> (step \<times> node) list" where
  "child_steps node = concat (map (\<lambda>(field, value). value_steps field value) (iter_fields node))"

section \<open>The edit outcomes, as the spec words them\<close>

text \<open>
  The spec's list rebuild: an element that is a Node contributes nothing when its visit
  returns the delete outcome (\<open>None\<close>), the no-value marker when it returns the
  explicit-null outcome (the sentinel), the elements of the returned sequence when it
  returns a sequence, and the returned Node when it returns a Node; any other element is
  copied. \<open>edit_outcome\<close> holds of the four outcomes. These two definitions follow the
  spec, not the code, and serve to compare the two.
\<close>

fun edit_outcome :: "val \<Rightarrow> bool" where
  "edit_outcome NoneV = True"
| "edit_outcome Sentinel = True"
| "edit_outcome (NodeV kept) = True"
| "edit_outcome (ListV nodes) = True"
| "edit_outcome _ = False"

definition spec_contribution :: "(node \<Rightarrow> error + val) \<Rightarrow> val \<Rightarrow> val list" where
  "spec_contribution visit element =
     (case element of
        NodeV n \<Rightarrow>
          (case visit n of
             Inr NoneV \<Rightarrow> []
           | Inr Sentinel \<Rightarrow> [NoneV]
           | Inr (ListV nodes) \<Rightarrow> nodes
           | Inr (NodeV kept) \<Rightarrow> [NodeV kept]
           | _ \<Rightarrow> [])
      | _ \<Rightarrow> [element])"

section \<open>Example classes and a visitor with handlers\<close>

text \<open>
  A visitor with a handler for each outcome: keep the node, delete, explicit null, splice
  two nodes, splice nothing, and a handler that returns a string.
\<close>

definition keepC :: pyclass where
  "keepC = \<lparr>cname = ''Keep'', cmodule = ''example'', cbases = [''Node''], cfields = [''id'']\<rparr>"
definition deleteC :: pyclass where
  "deleteC = \<lparr>cname = ''Delete'', cmodule = ''example'', cbases = [''Node''], cfields = []\<rparr>"
definition nullC :: pyclass where
  "nullC = \<lparr>cname = ''Null'', cmodule = ''example'', cbases = [''Node''], cfields = []\<rparr>"
definition spliceC :: pyclass where
  "spliceC = \<lparr>cname = ''Splice'', cmodule = ''example'', cbases = [''Node''], cfields = []\<rparr>"
definition emptyC :: pyclass where
  "emptyC = \<lparr>cname = ''Empty'', cmodule = ''example'', cbases = [''Node''], cfields = []\<rparr>"
definition textC :: pyclass where
  "textC = \<lparr>cname = ''Text'', cmodule = ''example'', cbases = [''Node''], cfields = []\<rparr>"

definition keep_node :: "string \<Rightarrow> node" where
  "keep_node name = Node keepC [(''id'', StrV name)]"

definition example_transformer :: visitor where
  "example_transformer =
     \<lparr>handlers =
        [''visit_Keep'' \<mapsto> (\<lambda>node. Inr (NodeV node)),
         ''visit_Delete'' \<mapsto> (\<lambda>node. Inr NoneV),
         ''visit_Null'' \<mapsto> (\<lambda>node. Inr Sentinel),
         ''visit_Splice'' \<mapsto> (\<lambda>node. Inr (ListV [NodeV (keep_node ''x''), NodeV (keep_node ''y'')])),
         ''visit_Empty'' \<mapsto> (\<lambda>node. Inr (ListV [])),
         ''visit_Text'' \<mapsto> (\<lambda>node. Inr (StrV ''ab''))]\<rparr>"

lemmas example_defs =
  keepC_def deleteC_def nullC_def spliceC_def emptyC_def textC_def keep_node_def example_transformer_def

lemma example_transformer_visit:
  "RecursiveTreeTransformer_visit example_transformer (keep_node name) = Inr (NodeV (keep_node name))"
  "RecursiveTreeTransformer_visit example_transformer (Node deleteC []) = Inr NoneV"
  "RecursiveTreeTransformer_visit example_transformer (Node nullC []) = Inr Sentinel"
  "RecursiveTreeTransformer_visit example_transformer (Node spliceC [])
     = Inr (ListV [NodeV (keep_node ''x''), NodeV (keep_node ''y'')])"
  "RecursiveTreeTransformer_visit example_transformer (Node emptyC []) = Inr (ListV [])"
  "RecursiveTreeTransformer_visit example_transformer (Node textC []) = Inr (StrV ''ab'')"
  by (simp_all add: RecursiveTreeTransformer_visit.simps BaseTreeVisitor_visit_def
      BaseTreeVisitor_resolve_def example_defs)

text \<open>
  A class with two single-child fields and a list field, the visitor that has no handler
  at all, and a small tree.
\<close>

definition pairC :: pyclass where
  "pairC = \<lparr>cname = ''Pair'', cmodule = ''example'', cbases = [''Node''], cfields = [''left'', ''right'', ''body'']\<rparr>"

definition default_transformer :: visitor where
  "default_transformer = \<lparr>handlers = Map.empty\<rparr>"

definition default_visitor :: visitor where
  "default_visitor = \<lparr>handlers = Map.empty\<rparr>"

definition example_tree :: node where
  "example_tree =
     Node pairC [(''left'', NodeV (keep_node ''x'')), (''right'', Leaf 3),
                 (''body'', ListV [NodeV (Node deleteC []), Leaf 1, NodeV (keep_node ''y'')])]"

section \<open>The list rebuild of the mutating traversal\<close>

text \<open>
  The loop of \<open>_visit_list\<close> never changes the list it reads, so reading it by position
  is a recursion over its elements.
\<close>

fun rebuild :: "(node \<Rightarrow> error + val) \<Rightarrow> val list \<Rightarrow> list_state \<Rightarrow> error + list_state" where
  "rebuild visit [] st = Inr st"
| "rebuild visit (value # rest) st =
     (case visit_list_body visit value st of Inl e \<Rightarrow> Inl e | Inr st' \<Rightarrow> rebuild visit rest st')"

lemma visit_list_loop_rebuild:
  "visit_list_loop visit i st = rebuild visit (drop i (original_list st)) st"
proof (induction visit i st rule: visit_list_loop.induct)
  case (1 visit i st)
  show ?case
  proof (cases "i < length (original_list st)")
    case True
    have d: "drop i (original_list st) = original_list st ! i # drop (Suc i) (original_list st)"
      using True by (simp add: Cons_nth_drop_Suc)
    show ?thesis
    proof (cases "visit_list_body visit (original_list st ! i) st")
      case (Inl e)
      with True d show ?thesis by (simp add: visit_list_loop.simps[of visit i st])
    next
      case (Inr st')
      have o: "original_list st' = original_list st"
        using Inr by (rule visit_list_body_original)
      have "visit_list_loop visit (Suc i) st' = rebuild visit (drop (Suc i) (original_list st')) st'"
        using True Inr by (rule "1.IH")
      with True d Inr o show ?thesis by (simp add: visit_list_loop.simps[of visit i st])
    qed
  next
    case False
    then show ?thesis by (simp add: visit_list_loop.simps[of visit i st])
  qed
qed

text \<open>What the iteration for one element appends to the new list.\<close>

definition appended :: "(node \<Rightarrow> error + val) \<Rightarrow> val \<Rightarrow> error + val list" where
  "appended visit value =
     (case visit_list_body visit value \<lparr>original_list = [], new_list = []\<rparr> of
        Inl e \<Rightarrow> Inl e
      | Inr st \<Rightarrow> Inr (new_list st))"

lemma visit_list_body_appended:
  "visit_list_body visit value st =
     (case appended visit value of
        Inl e \<Rightarrow> Inl e
      | Inr elems \<Rightarrow> Inr (st\<lparr>new_list := new_list st @ elems\<rparr>))"
  by (cases "value") (simp_all add: visit_list_body_def appended_def split: sum.splits option.splits)

lemma rebuild_new_list:
  "rebuild visit xs st =
     (case rebuild visit xs \<lparr>original_list = [], new_list = []\<rparr> of
        Inl e \<Rightarrow> Inl e
      | Inr d \<Rightarrow> Inr (st\<lparr>new_list := new_list st @ new_list d\<rparr>))"
proof (induction xs arbitrary: st)
  case Nil
  show ?case by simp
next
  case (Cons x xs)
  show ?case
  proof (cases "appended visit x")
    case (Inl e)
    then show ?thesis by (simp add: visit_list_body_appended[of visit x])
  next
    case (Inr elems)
    show ?thesis
      using Inr Cons.IH[of "st\<lparr>new_list := new_list st @ elems\<rparr>"]
        Cons.IH[of "\<lparr>original_list = [], new_list = elems\<rparr>"]
      by (simp add: visit_list_body_appended[of visit x] split: sum.splits)
  qed
qed

lemma Transformer_visit_list_Nil: "RecursiveTreeTransformer_visit_list visit [] = Inr []"
  by (simp add: RecursiveTreeTransformer_visit_list_def visit_list_loop_rebuild)

lemma Transformer_visit_list_rebuild:
  "RecursiveTreeTransformer_visit_list visit xs =
     (case rebuild visit xs \<lparr>original_list = [], new_list = []\<rparr> of
        Inl e \<Rightarrow> Inl e
      | Inr d \<Rightarrow> Inr (new_list d))"
  unfolding RecursiveTreeTransformer_visit_list_def visit_list_loop_rebuild
  using rebuild_new_list[of visit xs "\<lparr>original_list = xs, new_list = []\<rparr>"]
  by (simp split: sum.splits)

lemma Transformer_visit_list_Cons:
  "RecursiveTreeTransformer_visit_list visit (x # xs) =
     (case appended visit x of
        Inl e \<Rightarrow> Inl e
      | Inr elems \<Rightarrow>
          (case RecursiveTreeTransformer_visit_list visit xs of
             Inl e \<Rightarrow> Inl e
           | Inr rest \<Rightarrow> Inr (elems @ rest)))"
proof (cases "appended visit x")
  case (Inl e)
  then show ?thesis
    by (simp add: Transformer_visit_list_rebuild visit_list_body_appended[of visit x])
next
  case (Inr elems)
  then show ?thesis
    using rebuild_new_list[of visit xs "\<lparr>original_list = [], new_list = elems\<rparr>"]
    by (simp add: Transformer_visit_list_rebuild visit_list_body_appended[of visit x] split: sum.splits)
qed

lemma appended_simps:
  "appended visit NoneV = Inr [NoneV]"
  "appended visit Sentinel = Inr [Sentinel]"
  "appended visit (Leaf k) = Inr [Leaf k]"
  "appended visit (StrV s) = Inr [StrV s]"
  "appended visit (TupleV xs) = Inr [TupleV xs]"
  "appended visit (ListV xs) = Inr [ListV xs]"
  "appended visit (NodeV n) =
     (case visit n of
        Inl e \<Rightarrow> Inl e
      | Inr r \<Rightarrow> if r = NoneV then Inr [] else if r = Sentinel then Inr [NoneV]
                 else (case py_iter r of Some elems \<Rightarrow> Inr elems | None \<Rightarrow> Inr [r]))"
  by (simp_all add: appended_def visit_list_body_def split: sum.splits option.splits)

lemma visit_list_loop_original:
  "visit_list_loop visit i st = Inr st' \<Longrightarrow> original_list st' = original_list st"
proof (induction visit i st rule: visit_list_loop.induct)
  case (1 visit i st)
  show ?case
  proof (cases "i < length (original_list st)")
    case True
    then obtain m where m: "visit_list_body visit (original_list st ! i) st = Inr m"
      and r: "visit_list_loop visit (Suc i) m = Inr st'"
      using "1.prems" visit_list_loop.simps[of visit i st]
      by (cases "visit_list_body visit (original_list st ! i) st") simp_all
    have "original_list st' = original_list m" using True m r by (rule "1.IH")
    also have "\<dots> = original_list st" using m by (rule visit_list_body_original)
    finally show ?thesis .
  next
    case False
    then show ?thesis using "1.prems" visit_list_loop.simps[of visit i st] by simp
  qed
qed

lemma appended_spec_contribution:
  "(\<And>n. element = NodeV n \<Longrightarrow> \<exists>r. visit n = Inr r \<and> edit_outcome r) \<Longrightarrow>
   appended visit element = Inr (spec_contribution visit element)"
proof (cases element)
  case (NodeV n)
  assume "\<And>n. element = NodeV n \<Longrightarrow> \<exists>r. visit n = Inr r \<and> edit_outcome r"
  then obtain r where r: "visit n = Inr r" "edit_outcome r" using NodeV by blast
  then show ?thesis
    using NodeV by (cases r) (simp_all add: appended_simps spec_contribution_def)
qed (simp_all add: appended_simps spec_contribution_def)

lemma visit_list_spec:
  "(\<And>n. NodeV n \<in> set original \<Longrightarrow> \<exists>r. visit n = Inr r \<and> edit_outcome r) \<Longrightarrow>
   RecursiveTreeTransformer_visit_list visit original = Inr (concat (map (spec_contribution visit) original))"
proof (induction original)
  case Nil
  show ?case by (simp add: Transformer_visit_list_Nil)
next
  case (Cons x xs)
  have "appended visit x = Inr (spec_contribution visit x)"
    using Cons.prems by (intro appended_spec_contribution) simp
  moreover have "RecursiveTreeTransformer_visit_list visit xs = Inr (concat (map (spec_contribution visit) xs))"
    using Cons.prems by (intro Cons.IH) simp
  ultimately show ?case by (simp add: Transformer_visit_list_Cons)
qed

section \<open>\<open>visit\<close> of the two traversal classes\<close>

lemma Transformer_visit_unfold:
  "RecursiveTreeTransformer_visit self node =
     BaseTreeVisitor_visit (handlers self) (RecursiveTreeTransformer_generic_visit self) node"
  by (simp add: RecursiveTreeTransformer_visit.simps[of self node] BaseTreeVisitor_visit_def
      BaseTreeVisitor_resolve_def RecursiveTreeTransformer_generic_visit_def split: option.splits)

lemma Visitor_visit_unfold:
  "RecursiveTreeVisitor_visit self node tr =
     BaseTreeVisitor_visit (\<lambda>method. map_option read_only_handler (handlers self method))
       (RecursiveTreeVisitor_generic_visit self) node (tr @ [node])"
  by (simp add: RecursiveTreeVisitor_visit.simps[of self node tr] BaseTreeVisitor_visit_def
      BaseTreeVisitor_resolve_def RecursiveTreeVisitor_generic_visit_def split: option.splits)

lemma Transformer_visit_cases:
  "RecursiveTreeTransformer_visit self node =
     (case handlers self (''visit_'' @ cname (cls node)) of
        Some handler \<Rightarrow> handler node
      | None \<Rightarrow> RecursiveTreeTransformer_generic_visit self node)"
  by (simp add: Transformer_visit_unfold BaseTreeVisitor_visit_def BaseTreeVisitor_resolve_def
      split: option.splits)

lemma Visitor_visit_cases:
  "RecursiveTreeVisitor_visit self node tr =
     (case handlers self (''visit_'' @ cname (cls node)) of
        Some handler \<Rightarrow> read_only_handler handler node (tr @ [node])
      | None \<Rightarrow> RecursiveTreeVisitor_generic_visit self node (tr @ [node]))"
  by (simp add: Visitor_visit_unfold BaseTreeVisitor_visit_def BaseTreeVisitor_resolve_def
      split: option.splits)

lemma nodes_of_self: "node \<in> set (nodes_of node)"
  by (simp add: nodes_of.simps[of node])

lemma nodes_of_child: "n \<in> set (child_nodes node) \<Longrightarrow> set (nodes_of n) \<subseteq> set (nodes_of node)"
  by (auto simp: nodes_of.simps[of node])

lemma Transformer_unused_handler:
  "\<forall>n \<in> set (nodes_of node). cname (cls n) \<noteq> unused \<Longrightarrow>
   RecursiveTreeTransformer_visit (self\<lparr>handlers := (handlers self)(''visit_'' @ unused \<mapsto> h)\<rparr>) node
     = RecursiveTreeTransformer_visit self node"
proof (induction self node rule: RecursiveTreeTransformer_visit.induct)
  case (1 self node)
  let ?self' = "self\<lparr>handlers := (handlers self)(''visit_'' @ unused \<mapsto> h)\<rparr>"
  have "cname (cls node) \<noteq> unused"
    using "1.prems" nodes_of_self by blast
  then have key: "handlers ?self' (''visit_'' @ cname (cls node)) = handlers self (''visit_'' @ cname (cls node))"
    by simp
  have "RecursiveTreeTransformer_visit ?self' n = RecursiveTreeTransformer_visit self n"
    if "n \<in> set (child_nodes node)" for n
    using that "1.prems" nodes_of_child[OF that] by (intro "1.IH") auto
  then have "RecursiveTreeTransformer_children_visit (RecursiveTreeTransformer_visit ?self') node
      = RecursiveTreeTransformer_children_visit (RecursiveTreeTransformer_visit self) node"
    by (intro Transformer_children_visit_cong refl)
  then have gen: "RecursiveTreeTransformer_generic_visit ?self' node = RecursiveTreeTransformer_generic_visit self node"
    by (simp add: RecursiveTreeTransformer_generic_visit_def)
  show ?case
    by (simp only: Transformer_visit_cases[of _ node] key gen)
qed

lemma Visitor_unused_handler:
  "\<forall>n \<in> set (nodes_of node). cname (cls n) \<noteq> unused \<Longrightarrow>
   RecursiveTreeVisitor_visit (self\<lparr>handlers := (handlers self)(''visit_'' @ unused \<mapsto> h)\<rparr>) node tr
     = RecursiveTreeVisitor_visit self node tr"
proof (induction self node tr rule: RecursiveTreeVisitor_visit.induct)
  case (1 self node tr)
  let ?self' = "self\<lparr>handlers := (handlers self)(''visit_'' @ unused \<mapsto> h)\<rparr>"
  have "cname (cls node) \<noteq> unused"
    using "1.prems" nodes_of_self by blast
  then have key: "handlers ?self' (''visit_'' @ cname (cls node)) = handlers self (''visit_'' @ cname (cls node))"
    by simp
  have "RecursiveTreeVisitor_visit ?self' n t = RecursiveTreeVisitor_visit self n t"
    if "n \<in> set (child_nodes node)" for n t
    using that "1.prems" nodes_of_child[OF that] by (intro "1.IH") auto
  then have "RecursiveTreeVisitor_children_visit (RecursiveTreeVisitor_visit ?self') node t
      = RecursiveTreeVisitor_children_visit (RecursiveTreeVisitor_visit self) node t" for t
    by (intro Visitor_children_visit_cong refl)
  then have gen: "RecursiveTreeVisitor_generic_visit ?self' node t = RecursiveTreeVisitor_generic_visit self node t" for t
    by (simp add: RecursiveTreeVisitor_generic_visit_def)
  show ?case
    by (simp only: Visitor_visit_cases[of _ node] key gen)
qed

lemma nodes_of_example_tree:
  "nodes_of example_tree = [example_tree, keep_node ''x'', Node deleteC [], keep_node ''y'']"
  by (simp add: nodes_of.simps child_nodes_def iter_fields_def example_tree_def pairC_def example_defs)

section \<open>Properties of the dispatch core\<close>

text \<open>
  C7. \<open>children_visit\<close> of \<open>BaseTreeVisitor\<close> raises \<open>NotImplementedError\<close> for every
  node: it never returns normally. A visitor whose fallback goes through it, as the
  fallbacks of the two traversal classes go through theirs, fails in the same way on a
  node that has no handler.
\<close>

theorem base_children_visit_not_implemented:
  "BaseTreeVisitor_children_visit node = Inl NotImplementedError \<and>
   (\<forall>r. BaseTreeVisitor_children_visit node \<noteq> Inr r) \<and>
   BaseTreeVisitor_visit Map.empty
     (\<lambda>n. case BaseTreeVisitor_children_visit n of Inl e \<Rightarrow> Inl e | Inr u \<Rightarrow> Inr NoneV) node
     = Inl NotImplementedError"
  by (simp add: BaseTreeVisitor_children_visit_def BaseTreeVisitor_visit_def BaseTreeVisitor_resolve_def)

theorem base_children_visit_not_implemented_witness:
  "BaseTreeVisitor_children_visit (Node \<lparr>cname = ''Name'', cmodule = ''py2c.tree'', cbases = [''Node''], cfields = [''id'']\<rparr> [(''id'', StrV ''x'')])
     = Inl NotImplementedError"
  using base_children_visit_not_implemented
    [of "Node \<lparr>cname = ''Name'', cmodule = ''py2c.tree'', cbases = [''Node''], cfields = [''id'']\<rparr> [(''id'', StrV ''x'')]"]
  by simp

text \<open>
  C10. The handler \<open>visit\<close> resolves is the attribute \<open>visit_\<close> followed by the class name
  of the node, and the fallback when there is none. Two nodes whose classes have the same
  name resolve to the same handler, whatever the module, the bases, the declared fields
  and the attributes of either.
\<close>

theorem resolve_by_class_name:
  "BaseTreeVisitor_resolve self_attrs generic_visit n1 =
     (case self_attrs (''visit_'' @ cname (cls n1)) of Some h \<Rightarrow> h | None \<Rightarrow> generic_visit) \<and>
   (cname (cls n1) = cname (cls n2) \<longrightarrow>
      BaseTreeVisitor_resolve self_attrs generic_visit n1 = BaseTreeVisitor_resolve self_attrs generic_visit n2 \<and>
      BaseTreeVisitor_visit self_attrs generic_visit n1 = (BaseTreeVisitor_resolve self_attrs generic_visit n2) n1)"
  by (simp add: BaseTreeVisitor_resolve_def BaseTreeVisitor_visit_def)

theorem resolve_by_class_name_witness:
  "cname (cls (Node \<lparr>cname = ''Name'', cmodule = ''py2c.tree'', cbases = [''Node''], cfields = [''id'']\<rparr> [(''id'', StrV ''x'')]))
     = cname (cls (Node \<lparr>cname = ''Name'', cmodule = ''ast'', cbases = [''AST''], cfields = []\<rparr> [])) \<and>
   cls (Node \<lparr>cname = ''Name'', cmodule = ''py2c.tree'', cbases = [''Node''], cfields = [''id'']\<rparr> [(''id'', StrV ''x'')])
     \<noteq> cls (Node \<lparr>cname = ''Name'', cmodule = ''ast'', cbases = [''AST''], cfields = []\<rparr> []) \<and>
   BaseTreeVisitor_resolve [''visit_Name'' \<mapsto> (\<lambda>n. Inr Sentinel)] (\<lambda>n. Inr NoneV)
       (Node \<lparr>cname = ''Name'', cmodule = ''py2c.tree'', cbases = [''Node''], cfields = [''id'']\<rparr> [(''id'', StrV ''x'')])
     = BaseTreeVisitor_resolve [''visit_Name'' \<mapsto> (\<lambda>n. Inr Sentinel)] (\<lambda>n. Inr NoneV :: error + val)
       (Node \<lparr>cname = ''Name'', cmodule = ''ast'', cbases = [''AST''], cfields = []\<rparr> [])"
  using resolve_by_class_name
    [of "[''visit_Name'' \<mapsto> (\<lambda>n. Inr Sentinel)]" "\<lambda>n. Inr NoneV :: error + val"
        "Node \<lparr>cname = ''Name'', cmodule = ''py2c.tree'', cbases = [''Node''], cfields = [''id'']\<rparr> [(''id'', StrV ''x'')]"
        "Node \<lparr>cname = ''Name'', cmodule = ''ast'', cbases = [''AST''], cfields = []\<rparr> []"]
  by (simp add: BaseTreeVisitor_resolve_def)

text \<open>
  C6. \<open>visit\<close> calls the handler registered under the class name of the node when there
  is one, and the generic fallback of the traversal class otherwise; this holds of the
  dispatch core and of both traversal classes. A handler registered for a class name that
  no node of the tree carries changes nothing: both traversals return what they return
  without it (for the read-only traversal, with the same sequence of visits), so it
  raises nothing either.
\<close>

theorem visit_resolves_by_type_tag:
  "BaseTreeVisitor_visit self_attrs generic_visit node =
     (case self_attrs (''visit_'' @ cname (cls node)) of
        Some handler \<Rightarrow> handler node
      | None \<Rightarrow> generic_visit node) \<and>
   RecursiveTreeTransformer_visit self node =
     (case handlers self (''visit_'' @ cname (cls node)) of
        Some handler \<Rightarrow> handler node
      | None \<Rightarrow> RecursiveTreeTransformer_generic_visit self node) \<and>
   RecursiveTreeVisitor_visit self node tr =
     (case handlers self (''visit_'' @ cname (cls node)) of
        Some handler \<Rightarrow> read_only_handler handler node (tr @ [node])
      | None \<Rightarrow> RecursiveTreeVisitor_generic_visit self node (tr @ [node])) \<and>
   ((\<forall>n \<in> set (nodes_of node). cname (cls n) \<noteq> unused) \<longrightarrow>
      RecursiveTreeTransformer_visit (self\<lparr>handlers := (handlers self)(''visit_'' @ unused \<mapsto> h)\<rparr>) node
        = RecursiveTreeTransformer_visit self node \<and>
      RecursiveTreeVisitor_visit (self\<lparr>handlers := (handlers self)(''visit_'' @ unused \<mapsto> h)\<rparr>) node tr
        = RecursiveTreeVisitor_visit self node tr)"
proof (intro conjI impI)
  show "BaseTreeVisitor_visit self_attrs generic_visit node =
     (case self_attrs (''visit_'' @ cname (cls node)) of
        Some handler \<Rightarrow> handler node
      | None \<Rightarrow> generic_visit node)"
    by (simp add: BaseTreeVisitor_visit_def BaseTreeVisitor_resolve_def split: option.splits)
qed (simp_all only: Transformer_visit_cases[of self node] Visitor_visit_cases[of self node tr]
      Transformer_unused_handler Visitor_unused_handler)

theorem visit_resolves_by_type_tag_witness:
  "RecursiveTreeTransformer_visit
     (example_transformer\<lparr>handlers := (handlers example_transformer)(''visit_'' @ ''Ghost'' \<mapsto> (\<lambda>n. Inl (Raised ''unused'')))\<rparr>)
     example_tree
     = RecursiveTreeTransformer_visit example_transformer example_tree \<and>
   RecursiveTreeVisitor_visit
     (example_transformer\<lparr>handlers := (handlers example_transformer)(''visit_'' @ ''Ghost'' \<mapsto> (\<lambda>n. Inl (Raised ''unused'')))\<rparr>)
     example_tree []
     = RecursiveTreeVisitor_visit example_transformer example_tree [] \<and>
   RecursiveTreeTransformer_visit example_transformer example_tree
     = RecursiveTreeTransformer_generic_visit example_transformer example_tree"
  using visit_resolves_by_type_tag
    [of "handlers example_transformer" "RecursiveTreeTransformer_generic_visit example_transformer"
        example_tree example_transformer "[]" "''Ghost''" "\<lambda>n. Inl (Raised ''unused'')"]
  by (simp add: nodes_of_example_tree) (simp add: example_tree_def pairC_def example_defs)

section \<open>The read-only traversal visits each Node once\<close>

text \<open>
  With no handler registered, the calls of \<open>visit\<close> are the nodes of the tree, each
  parent before its children, the children in the order of the fields and of the lists.
\<close>

lemma Visitor_visit_list_trace:
  "(\<And>n t. NodeV n \<in> set xs \<Longrightarrow> f n t = Inr (NoneV, t @ g n)) \<Longrightarrow>
   RecursiveTreeVisitor_visit_list f xs tr = Inr (tr @ concat (map g (list_nodes xs)))"
proof (induction xs arbitrary: tr)
  case Nil
  show ?case by simp
next
  case (Cons x xs)
  have rest: "RecursiveTreeVisitor_visit_list f xs t = Inr (t @ concat (map g (list_nodes xs)))" for t
    using Cons.prems by (intro Cons.IH) simp
  show ?case
  proof (cases x)
    case (NodeV n)
    then have "f n tr = Inr (NoneV, tr @ g n)" using Cons.prems by simp
    with NodeV rest show ?thesis by simp
  qed (simp_all add: rest)
qed

lemma visitor_field_trace:
  assumes "(field, v) \<in> set (iter_fields node)"
    and "\<And>n t. n \<in> set (child_nodes node) \<Longrightarrow> f n t = Inr (NoneV, t @ g n)"
  shows "visitor_field f node field tr = Inr (tr @ concat (map g (value_nodes v)))"
proof -
  have get: "getattr node field NoneV = v" using assms(1) by (rule iter_fields_getattr)
  show ?thesis
  proof (cases v)
    case (NodeV n)
    have "f n tr = Inr (NoneV, tr @ g n)"
      using assms(1) NodeV by (intro assms(2)) (auto dest: child_nodes_NodeV)
    with get NodeV show ?thesis by (simp add: visitor_field_def)
  next
    case (ListV xs)
    have "RecursiveTreeVisitor_visit_list f xs tr = Inr (tr @ concat (map g (list_nodes xs)))"
      using assms(1) ListV by (intro Visitor_visit_list_trace assms(2)) (auto dest: child_nodes_ListV)
    with get ListV show ?thesis by (simp add: visitor_field_def)
  qed (simp_all add: visitor_field_def get)
qed

lemma visitor_fields_loop_trace:
  assumes "\<And>n t. n \<in> set (child_nodes node) \<Longrightarrow> f n t = Inr (NoneV, t @ g n)"
  shows "set ps \<subseteq> set (iter_fields node) \<Longrightarrow>
         visitor_fields_loop f node ps tr
           = Inr (tr @ concat (map g (concat (map (\<lambda>(field, value). value_nodes value) ps))))"
proof (induction ps arbitrary: tr)
  case Nil
  show ?case by simp
next
  case (Cons p ps)
  obtain field v where p: "p = (field, v)" by (cases p)
  have step: "visitor_field f node field tr = Inr (tr @ concat (map g (value_nodes v)))"
    using Cons.prems p by (intro visitor_field_trace assms) auto
  have rest: "visitor_fields_loop f node ps t
      = Inr (t @ concat (map g (concat (map (\<lambda>(field, value). value_nodes value) ps))))" for t
    using Cons.prems by (intro Cons.IH) simp
  show ?case by (simp add: p step rest)
qed

lemma Visitor_children_visit_trace:
  assumes "\<And>n t. n \<in> set (child_nodes node) \<Longrightarrow> f n t = Inr (NoneV, t @ g n)"
  shows "RecursiveTreeVisitor_children_visit f node tr = Inr (tr @ concat (map g (child_nodes node)))"
  unfolding RecursiveTreeVisitor_children_visit_def child_nodes_def
  using assms by (intro visitor_fields_loop_trace) simp_all

lemma Visitor_visit_trace:
  "handlers self = Map.empty \<Longrightarrow>
   RecursiveTreeVisitor_visit self node tr = Inr (NoneV, tr @ nodes_of node)"
proof (induction self node tr rule: RecursiveTreeVisitor_visit.induct)
  case (1 self node tr)
  have "RecursiveTreeVisitor_visit self n t = Inr (NoneV, t @ nodes_of n)"
    if "n \<in> set (child_nodes node)" for n t
    using that "1.prems" by (intro "1.IH")
  then have "RecursiveTreeVisitor_children_visit (RecursiveTreeVisitor_visit self) node (tr @ [node])
      = Inr ((tr @ [node]) @ concat (map nodes_of (child_nodes node)))"
    by (rule Visitor_children_visit_trace)
  then show ?case
    using "1.prems"
    by (simp add: Visitor_visit_cases[of self node tr] RecursiveTreeVisitor_generic_visit_def
        nodes_of.simps[of node])
qed

text \<open>
  The steps to the children of a node are the steps at which \<open>child_at\<close> finds a Node,
  and no step comes twice when the declared field names are distinct.
\<close>

lemma set_map_filter: "set (List.map_filter f xs) = {y. \<exists>x \<in> set xs. f x = Some y}"
  by (induction xs) (auto split: option.splits)

lemma iter_fields_iff:
  "(field, v) \<in> set (iter_fields node) \<longleftrightarrow>
     field \<in> set (cfields (cls node)) \<and> map_of (attrs node) field = Some v"
  by (auto simp: iter_fields_def set_map_filter)

lemma elem_step_simps:
  "elem_step field (k, NodeV n) = Some ((field, Some k), n)"
  "elem_step field (k, NoneV) = None"
  "elem_step field (k, Sentinel) = None"
  "elem_step field (k, Leaf i) = None"
  "elem_step field (k, StrV str) = None"
  "elem_step field (k, TupleV xs) = None"
  "elem_step field (k, ListV xs) = None"
  by (simp_all add: elem_step_def)

lemma map_filter_enumerate_nodes:
  "map snd (List.map_filter (elem_step field) (enumerate k xs)) = list_nodes xs"
proof (induction xs arbitrary: k)
  case Nil
  show ?case by simp
next
  case (Cons x xs)
  show ?case by (cases x) (simp_all add: elem_step_simps Cons.IH)
qed

lemma value_steps_nodes: "map snd (value_steps field v) = value_nodes v"
  by (cases v) (simp_all add: list_steps_def map_filter_enumerate_nodes)

lemma child_steps_nodes: "map snd (child_steps node) = child_nodes node"
proof -
  have "map snd (concat (map (\<lambda>(field, value). value_steps field value) ps))
      = concat (map (\<lambda>(field, value). value_nodes value) ps)" for ps
    by (induction ps) (auto simp: value_steps_nodes)
  then show ?thesis by (simp add: child_steps_def child_nodes_def)
qed

lemma set_list_steps:
  "(s, c) \<in> set (list_steps field xs) \<longleftrightarrow>
     (\<exists>i. s = (field, Some i) \<and> i < length xs \<and> xs ! i = NodeV c)"
proof
  assume "(s, c) \<in> set (list_steps field xs)"
  then obtain p where p: "p \<in> set (enumerate 0 xs)" and e: "elem_step field p = Some (s, c)"
    by (auto simp: list_steps_def set_map_filter)
  have "fst p < length xs" "xs ! fst p = snd p"
    using p by (simp_all add: in_set_enumerate_eq)
  moreover have "snd p = NodeV c" "s = (field, Some (fst p))"
    using e by (auto simp: elem_step_def split: val.splits)
  ultimately show "\<exists>i. s = (field, Some i) \<and> i < length xs \<and> xs ! i = NodeV c"
    by auto
next
  assume "\<exists>i. s = (field, Some i) \<and> i < length xs \<and> xs ! i = NodeV c"
  then obtain i where i: "s = (field, Some i)" "i < length xs" "xs ! i = NodeV c"
    by blast
  then have "(i, NodeV c) \<in> set (enumerate 0 xs)"
    by (simp add: in_set_enumerate_eq)
  moreover have "elem_step field (i, NodeV c) = Some (s, c)"
    using i by (simp add: elem_step_def)
  ultimately show "(s, c) \<in> set (list_steps field xs)"
    unfolding list_steps_def set_map_filter by blast
qed

lemma set_value_steps:
  "(s, c) \<in> set (value_steps field v) \<longleftrightarrow>
     (s = (field, None) \<and> v = NodeV c) \<or>
     (\<exists>xs i. v = ListV xs \<and> s = (field, Some i) \<and> i < length xs \<and> xs ! i = NodeV c)"
  by (cases v) (auto simp: set_list_steps)

lemma child_steps_child_at: "(s, c) \<in> set (child_steps node) \<longleftrightarrow> child_at node s = Some c"
proof
  assume "(s, c) \<in> set (child_steps node)"
  then obtain field v where fv: "(field, v) \<in> set (iter_fields node)"
    and sc: "(s, c) \<in> set (value_steps field v)"
    by (auto simp: child_steps_def)
  from fv have f: "field \<in> set (cfields (cls node))" "map_of (attrs node) field = Some v"
    by (simp_all add: iter_fields_iff)
  from sc f show "child_at node s = Some c"
    unfolding set_value_steps by auto
next
  assume a: "child_at node s = Some c"
  obtain field pos where s: "s = (field, pos)" by (cases s)
  show "(s, c) \<in> set (child_steps node)"
  proof (cases pos)
    case None
    with a s have "field \<in> set (cfields (cls node))" "map_of (attrs node) field = Some (NodeV c)"
      by (auto split: if_splits option.splits val.splits)
    then have "(field, NodeV c) \<in> set (iter_fields node)" by (simp add: iter_fields_iff)
    moreover have "(s, c) \<in> set (value_steps field (NodeV c))" using s None by simp
    ultimately show ?thesis unfolding child_steps_def by force
  next
    case (Some i)
    with a s obtain xs where "field \<in> set (cfields (cls node))" "map_of (attrs node) field = Some (ListV xs)"
      "i < length xs" "xs ! i = NodeV c"
      by (auto split: if_splits option.splits val.splits)
    then have "(field, ListV xs) \<in> set (iter_fields node)" "(s, c) \<in> set (value_steps field (ListV xs))"
      using s Some by (simp_all add: iter_fields_iff set_list_steps)
    then show ?thesis unfolding child_steps_def by force
  qed
qed

lemma value_steps_field: "(s, c) \<in> set (value_steps field v) \<Longrightarrow> fst s = field"
  unfolding set_value_steps by auto

lemma distinct_list_steps: "distinct (map fst (list_steps field xs))"
proof -
  have inj: "distinct (map fst (List.map_filter (elem_step field) ps))"
    if "distinct (map fst ps)" for ps :: "(nat \<times> val) list"
    using that
  proof (induction ps)
    case Nil
    show ?case by simp
  next
    case (Cons p ps)
    obtain k x where p: "p = (k, x)" by (cases p)
    have ih: "distinct (map fst (List.map_filter (elem_step field) ps))"
      using Cons by simp
    have "fst sc \<noteq> (field, Some k)" if "sc \<in> set (List.map_filter (elem_step field) ps)" for sc
    proof -
      from that obtain q where q: "q \<in> set ps" "elem_step field q = Some sc"
        by (auto simp: set_map_filter)
      then have "fst sc = (field, Some (fst q))"
        by (auto simp: elem_step_def split: val.splits)
      moreover have "k \<notin> set (map fst ps)" using Cons.prems p by simp
      then have "fst q \<noteq> k" using q(1) by (metis image_eqI set_map)
      ultimately show ?thesis by simp
    qed
    then have fresh: "(field, Some k) \<notin> fst ` set (List.map_filter (elem_step field) ps)"
      by force
    show ?case
      by (cases x) (simp_all add: p elem_step_simps ih fresh)
  qed
  show ?thesis unfolding list_steps_def by (rule inj) (simp add: map_fst_enumerate)
qed

lemma distinct_value_steps: "distinct (map fst (value_steps field v))"
  by (cases v) (simp_all add: distinct_list_steps)

lemma distinct_fields_steps:
  "distinct (map fst ps) \<Longrightarrow>
   distinct (map fst (concat (map (\<lambda>(field, value). value_steps field value) ps)))"
proof (induction ps)
  case Nil
  show ?case by simp
next
  case (Cons p ps)
  obtain field v where p: "p = (field, v)" by (cases p)
  have "fst s \<noteq> field" if "(s, c) \<in> set (concat (map (\<lambda>(field, value). value_steps field value) ps))" for s c
  proof -
    from that obtain f' v' where "(f', v') \<in> set ps" "(s, c) \<in> set (value_steps f' v')" by auto
    then have "fst s = f'" "f' \<in> fst ` set ps" by (auto dest: value_steps_field intro: rev_image_eqI)
    then show ?thesis using Cons.prems p by auto
  qed
  note other = this
  have "False"
    if a: "s \<in> set (map fst (value_steps field v))"
      and b: "s \<in> set (map fst (concat (map (\<lambda>(field, value). value_steps field value) ps)))" for s
  proof -
    from a obtain c where "(s, c) \<in> set (value_steps field v)" by force
    then have "fst s = field" by (rule value_steps_field)
    moreover from b obtain c' where "(s, c') \<in> set (concat (map (\<lambda>(field, value). value_steps field value) ps))"
      by force
    then have "fst s \<noteq> field" by (rule other)
    ultimately show False by simp
  qed
  then have "set (map fst (value_steps field v))
      \<inter> set (map fst (concat (map (\<lambda>(field, value). value_steps field value) ps))) = {}"
    by blast
  moreover have "distinct (map fst (concat (map (\<lambda>(field, value). value_steps field value) ps)))"
    using Cons by simp
  ultimately show ?case
    by (simp add: p distinct_value_steps)
qed

lemma iter_fields_names: "map fst (iter_fields node) = filter (\<lambda>f. map_of (attrs node) f \<noteq> None) (cfields (cls node))"
proof -
  have "map fst (List.map_filter (\<lambda>field. map_option (Pair field) (m field)) fs)
      = filter (\<lambda>f. m f \<noteq> None) fs" for fs :: "string list" and m :: "string \<rightharpoonup> val"
    by (induction fs) auto
  then show ?thesis by (simp add: iter_fields_def)
qed

lemma distinct_child_steps:
  "distinct (cfields (cls node)) \<Longrightarrow> distinct (map fst (child_steps node))"
  unfolding child_steps_def
  by (intro distinct_fields_steps) (simp add: iter_fields_names)

text \<open>All the paths of a tree, the path to a parent before the paths to its children.\<close>

function paths_of :: "node \<Rightarrow> step list list" where
  "paths_of node = [] # concat (map (\<lambda>(s, child). map ((#) s) (paths_of child)) (child_steps node))"
  by pat_completeness auto
termination
proof (relation "measure size")
  show "wf (measure size)" by simp
next
  fix node :: node and x :: "step \<times> node" and s :: step and child :: node
  assume "x \<in> set (child_steps node)" "(s, child) = x"
  then have "child \<in> snd ` set (child_steps node)" by force
  then have "child \<in> set (child_nodes node)"
    using child_steps_nodes[of node] by (metis set_map)
  then show "(child, node) \<in> measure size" by (simp add: child_nodes_size)
qed

declare paths_of.simps [simp del]

lemma paths_of_Nil: "[] \<in> set (paths_of node)"
  by (simp add: paths_of.simps[of node])

lemma paths_of_Cons:
  "s # q \<in> set (paths_of node) \<longleftrightarrow> (\<exists>c. (s, c) \<in> set (child_steps node) \<and> q \<in> set (paths_of c))"
proof
  assume "s # q \<in> set (paths_of node)"
  then obtain x where x: "x \<in> set (child_steps node)"
    and m: "s # q \<in> set (case x of (s', c) \<Rightarrow> map ((#) s') (paths_of c))"
    unfolding paths_of.simps[of node] by auto
  obtain s' c where sc: "x = (s', c)" by (cases x)
  from m sc have "s' = s" "q \<in> set (paths_of c)" by auto
  with x sc show "\<exists>c. (s, c) \<in> set (child_steps node) \<and> q \<in> set (paths_of c)" by blast
next
  assume "\<exists>c. (s, c) \<in> set (child_steps node) \<and> q \<in> set (paths_of c)"
  then obtain c where c: "(s, c) \<in> set (child_steps node)" "q \<in> set (paths_of c)" by blast
  then have "s # q \<in> set (case (s, c) of (s', c) \<Rightarrow> map ((#) s') (paths_of c))" by simp
  with c(1) show "s # q \<in> set (paths_of node)"
    unfolding paths_of.simps[of node] set_simps set_concat set_map by blast
qed

lemma paths_of_node_at: "p \<in> set (paths_of node) \<longleftrightarrow> node_at node p \<noteq> None"
proof (induction p arbitrary: node)
  case Nil
  show ?case by (simp add: paths_of_Nil)
next
  case (Cons s q)
  have "s # q \<in> set (paths_of node) \<longleftrightarrow> (\<exists>c. child_at node s = Some c \<and> q \<in> set (paths_of c))"
    by (simp add: paths_of_Cons child_steps_child_at)
  also have "\<dots> \<longleftrightarrow> (\<exists>c. child_at node s = Some c \<and> node_at c q \<noteq> None)"
    by (simp add: Cons.IH)
  also have "\<dots> \<longleftrightarrow> node_at node (s # q) \<noteq> None"
    by (cases "child_at node s") simp_all
  finally show ?case .
qed

lemma distinct_prefixed:
  "distinct (map fst steps) \<Longrightarrow> (\<And>s c. (s, c) \<in> set steps \<Longrightarrow> distinct (P c)) \<Longrightarrow>
   distinct (concat (map (\<lambda>(s, c). map ((#) s) (P c)) steps))"
proof (induction steps)
  case Nil
  show ?case by simp
next
  case (Cons x steps)
  obtain s c where x: "x = (s, c)" by (cases x)
  have first: "distinct (map ((#) s) (P c))"
    using Cons.prems(2)[of s c] x by (simp add: distinct_map)
  have rest: "distinct (concat (map (\<lambda>(s, c). map ((#) s) (P c)) steps))"
  proof (rule Cons.IH)
    show "distinct (map fst steps)" using Cons.prems(1) by simp
    show "distinct (P c')" if "(s', c') \<in> set steps" for s' c'
      using that by (intro Cons.prems(2)[of s' c']) simp
  qed
  have "False"
    if a: "p \<in> set (map ((#) s) (P c))"
      and b: "p \<in> set (concat (map (\<lambda>(s, c). map ((#) s) (P c)) steps))" for p
  proof -
    from a obtain q where "p = s # q" by auto
    moreover from b obtain s' c' q' where "(s', c') \<in> set steps" "p = s' # q'" by auto
    moreover have "s \<notin> set (map fst steps)" using Cons.prems(1) x by simp
    ultimately show False by (metis fst_conv image_eqI list.inject set_map)
  qed
  then have "set (map ((#) s) (P c)) \<inter> set (concat (map (\<lambda>(s, c). map ((#) s) (P c)) steps)) = {}"
    by blast
  with first rest show ?case by (simp add: x)
qed

lemma distinct_paths_of:
  "\<forall>n \<in> set (nodes_of node). distinct (cfields (cls n)) \<Longrightarrow> distinct (paths_of node)"
proof (induction node rule: paths_of.induct)
  case (1 node)
  have "distinct (cfields (cls node))"
    using "1.prems" nodes_of_self by blast
  then have steps: "distinct (map fst (child_steps node))"
    by (rule distinct_child_steps)
  have sub: "distinct (paths_of c)" if "(s, c) \<in> set (child_steps node)" for s c
  proof -
    have "c \<in> snd ` set (child_steps node)" using that by force
    then have "c \<in> set (child_nodes node)"
      using child_steps_nodes[of node] by (metis set_map)
    then have "set (nodes_of c) \<subseteq> set (nodes_of node)" by (rule nodes_of_child)
    then have "\<forall>n \<in> set (nodes_of c). distinct (cfields (cls n))" using "1.prems" by blast
    with that show ?thesis by (intro "1.IH"[of "(s, c)" s c]) simp_all
  qed
  have "distinct (concat (map (\<lambda>(s, c). map ((#) s) (paths_of c)) (child_steps node)))"
    using steps sub by (rule distinct_prefixed)
  moreover have "[] \<notin> set (concat (map (\<lambda>(s, c). map ((#) s) (paths_of c)) (child_steps node)))"
    by auto
  ultimately show ?case by (simp add: paths_of.simps[of node])
qed

lemma node_at_prefixed:
  "(\<And>s c. (s, c) \<in> set steps \<Longrightarrow> map (node_at node) (map ((#) s) (P c)) = map Some (N c)) \<Longrightarrow>
   map (node_at node) (concat (map (\<lambda>(s, c). map ((#) s) (P c)) steps))
     = map Some (concat (map N (map snd steps)))"
proof (induction steps)
  case Nil
  show ?case by simp
next
  case (Cons x steps)
  obtain s c where x: "x = (s, c)" by (cases x)
  have "map (node_at node) (map ((#) s) (P c)) = map Some (N c)"
    using Cons.prems[of s c] x by simp
  moreover have "map (node_at node) (concat (map (\<lambda>(s, c). map ((#) s) (P c)) steps))
     = map Some (concat (map N (map snd steps)))"
    using Cons.prems by (intro Cons.IH) simp
  ultimately show ?case by (simp add: x)
qed

lemma node_at_paths_of: "map (node_at node) (paths_of node) = map Some (nodes_of node)"
proof (induction node rule: paths_of.induct)
  case (1 node)
  have "map (node_at node) (map ((#) s) (paths_of c)) = map Some (nodes_of c)"
    if "(s, c) \<in> set (child_steps node)" for s c
  proof -
    have "child_at node s = Some c" using that by (simp add: child_steps_child_at)
    then have "map (node_at node) (map ((#) s) (paths_of c)) = map (node_at c) (paths_of c)"
      by simp
    also have "\<dots> = map Some (nodes_of c)"
      using that by (intro "1.IH"[of "(s, c)" s c]) simp_all
    finally show ?thesis .
  qed
  then have "map (node_at node) (concat (map (\<lambda>(s, c). map ((#) s) (paths_of c)) (child_steps node)))
     = map Some (concat (map nodes_of (map snd (child_steps node))))"
    by (rule node_at_prefixed)
  then show ?case
    by (simp add: paths_of.simps[of node] nodes_of.simps[of node] child_steps_nodes)
qed

text \<open>
  C5. A read-only traversal with no handler registered, started at the root of a tree
  whose classes declare distinct field names, returns without raising, and its calls of
  \<open>visit\<close> are, in order, the Nodes at the places of a list \<open>paths\<close> that has no place
  twice and holds every place of the tree where there is a Node. So \<open>visit\<close> is called
  once for each Node reachable from the root. \<open>visit\<close> is called on Nodes only: the
  traversal tests \<open>isinstance(value, self.root_class)\<close> before each call, which the type
  of \<open>visit\<close> records.
\<close>

theorem read_only_visits_each_node_once:
  assumes "handlers self = Map.empty"
    and "\<forall>n \<in> set (nodes_of root). distinct (cfields (cls n))"
  shows "\<exists>paths visited.
           RecursiveTreeVisitor_visit self root [] = Inr (NoneV, visited) \<and>
           map (node_at root) paths = map Some visited \<and>
           distinct paths \<and>
           set paths = {p. node_at root p \<noteq> None}"
proof (intro exI conjI)
  show "RecursiveTreeVisitor_visit self root [] = Inr (NoneV, nodes_of root)"
    using assms(1) Visitor_visit_trace[of self root "[]"] by simp
  show "map (node_at root) (paths_of root) = map Some (nodes_of root)"
    by (rule node_at_paths_of)
  show "distinct (paths_of root)"
    using assms(2) by (rule distinct_paths_of)
  show "set (paths_of root) = {p. node_at root p \<noteq> None}"
    using paths_of_node_at by blast
qed

theorem read_only_visits_each_node_once_witness:
  "\<exists>paths.
     RecursiveTreeVisitor_visit default_visitor example_tree []
       = Inr (NoneV, [example_tree, keep_node ''x'', Node deleteC [], keep_node ''y'']) \<and>
     map (node_at example_tree) paths
       = map Some [example_tree, keep_node ''x'', Node deleteC [], keep_node ''y''] \<and>
     distinct paths \<and>
     set paths = {p. node_at example_tree p \<noteq> None}"
proof -
  have h: "handlers default_visitor = Map.empty"
    by (simp add: default_visitor_def)
  have d: "\<forall>n \<in> set (nodes_of example_tree). distinct (cfields (cls n))"
    by (simp add: nodes_of_example_tree) (simp add: example_tree_def pairC_def example_defs)
  have v: "RecursiveTreeVisitor_visit default_visitor example_tree []
       = Inr (NoneV, [example_tree, keep_node ''x'', Node deleteC [], keep_node ''y''])"
    using Visitor_visit_trace[OF h, of example_tree "[]"] by (simp add: nodes_of_example_tree)
  from read_only_visits_each_node_once[OF h d] v show ?thesis
    by auto
qed

section \<open>Properties of the list rebuild\<close>

text \<open>
  C4. The list rebuild goes through the old sequence in order. When every visit of a Node
  element returns one of the four outcomes, the new sequence is the concatenation of what
  the spec lets each element contribute: nothing for the delete outcome, the no-value
  marker for the explicit-null outcome, the elements of a returned sequence, the returned
  Node, and the element itself when it is not a Node. The four examples of the spec
  follow: with \<open>a\<close> and \<open>c\<close> kept, \<open>[a, b, c]\<close> becomes \<open>[a, c]\<close> when \<open>b\<close> is deleted,
  \<open>[a, x, y, c]\<close> when \<open>b\<close> is replaced by \<open>[x, y]\<close>, \<open>[a, None, c]\<close> when the visit of \<open>b\<close>
  returns the explicit-null outcome, and \<open>[a, c]\<close> when \<open>b\<close> is replaced by the empty
  sequence.
\<close>

theorem visit_list_rebuilds:
  "((\<forall>n. NodeV n \<in> set original \<longrightarrow> (\<exists>r. visit n = Inr r \<and> edit_outcome r)) \<longrightarrow>
      RecursiveTreeTransformer_visit_list visit original
        = Inr (concat (map (spec_contribution visit) original))) \<and>
   (visit a = Inr (NodeV a) \<and> visit c = Inr (NodeV c) \<longrightarrow>
      (visit b1 = Inr NoneV \<longrightarrow>
         RecursiveTreeTransformer_visit_list visit [NodeV a, NodeV b1, NodeV c] = Inr [NodeV a, NodeV c]) \<and>
      (visit b2 = Inr (ListV [NodeV x, NodeV y]) \<longrightarrow>
         RecursiveTreeTransformer_visit_list visit [NodeV a, NodeV b2, NodeV c]
           = Inr [NodeV a, NodeV x, NodeV y, NodeV c]) \<and>
      (visit b3 = Inr Sentinel \<longrightarrow>
         RecursiveTreeTransformer_visit_list visit [NodeV a, NodeV b3, NodeV c] = Inr [NodeV a, NoneV, NodeV c]) \<and>
      (visit b4 = Inr (ListV []) \<longrightarrow>
         RecursiveTreeTransformer_visit_list visit [NodeV a, NodeV b4, NodeV c] = Inr [NodeV a, NodeV c]))"
proof (intro conjI impI)
  assume "\<forall>n. NodeV n \<in> set original \<longrightarrow> (\<exists>r. visit n = Inr r \<and> edit_outcome r)"
  then show "RecursiveTreeTransformer_visit_list visit original
        = Inr (concat (map (spec_contribution visit) original))"
    by (intro visit_list_spec) blast
qed (simp_all add: Transformer_visit_list_Cons Transformer_visit_list_Nil appended_simps)

theorem visit_list_rebuilds_witness:
  "RecursiveTreeTransformer_visit_list (RecursiveTreeTransformer_visit example_transformer)
     [NodeV (keep_node ''a''), NodeV (Node deleteC []), NodeV (keep_node ''c'')]
     = Inr [NodeV (keep_node ''a''), NodeV (keep_node ''c'')] \<and>
   RecursiveTreeTransformer_visit_list (RecursiveTreeTransformer_visit example_transformer)
     [NodeV (keep_node ''a''), NodeV (Node spliceC []), NodeV (keep_node ''c'')]
     = Inr [NodeV (keep_node ''a''), NodeV (keep_node ''x''), NodeV (keep_node ''y''), NodeV (keep_node ''c'')] \<and>
   RecursiveTreeTransformer_visit_list (RecursiveTreeTransformer_visit example_transformer)
     [NodeV (keep_node ''a''), NodeV (Node nullC []), NodeV (keep_node ''c'')]
     = Inr [NodeV (keep_node ''a''), NoneV, NodeV (keep_node ''c'')] \<and>
   RecursiveTreeTransformer_visit_list (RecursiveTreeTransformer_visit example_transformer)
     [NodeV (keep_node ''a''), NodeV (Node emptyC []), NodeV (keep_node ''c'')]
     = Inr [NodeV (keep_node ''a''), NodeV (keep_node ''c'')] \<and>
   RecursiveTreeTransformer_visit_list (RecursiveTreeTransformer_visit example_transformer)
     [NodeV (Node deleteC []), Leaf 7, NodeV (Node spliceC []), NodeV (Node nullC []), StrV ''leaf'']
     = Inr [Leaf 7, NodeV (keep_node ''x''), NodeV (keep_node ''y''), NoneV, StrV ''leaf'']"
  using visit_list_rebuilds
    [of "[NodeV (Node deleteC []), Leaf 7, NodeV (Node spliceC []), NodeV (Node nullC []), StrV ''leaf'']"
        "RecursiveTreeTransformer_visit example_transformer"
        "keep_node ''a''" "keep_node ''c''" "Node deleteC []" "Node spliceC []"
        "keep_node ''x''" "keep_node ''y''" "Node nullC []" "Node emptyC []"]
  by (simp add: example_transformer_visit spec_contribution_def)

text \<open>
  C9. A visit result that is iterable and is neither \<open>None\<close>, nor the sentinel, nor a
  Node is spliced: the iteration appends its elements to the new list, one level deep,
  whatever they are. The elements of a string are its characters, those of a tuple its
  components. For the visitor of the examples, whose handler for \<open>Text\<close> returns the
  string \<open>ab\<close>, the list \<open>[1, Text(), 2]\<close> is rebuilt to \<open>[1, 'a', 'b', 2]\<close>.
\<close>

theorem iterable_result_is_spliced:
  assumes "visit n = Inr r" and "py_iter r = Some elems"
    and "r \<noteq> NoneV" and "r \<noteq> Sentinel" and "\<forall>m. r \<noteq> NodeV m"
  shows "visit_list_body visit (NodeV n) st = Inr (st\<lparr>new_list := new_list st @ elems\<rparr>) \<and>
         RecursiveTreeTransformer_visit_list visit (NodeV n # rest)
           = (case RecursiveTreeTransformer_visit_list visit rest of
                Inl e \<Rightarrow> Inl e
              | Inr rebuilt \<Rightarrow> Inr (elems @ rebuilt)) \<and>
         (\<forall>s. r = StrV s \<longrightarrow> elems = map (\<lambda>c. StrV [c]) s) \<and>
         (\<forall>xs. r = TupleV xs \<longrightarrow> elems = xs) \<and>
         RecursiveTreeTransformer_visit_list (RecursiveTreeTransformer_visit example_transformer)
           [Leaf 1, NodeV (Node textC []), Leaf 2]
           = Inr [Leaf 1, StrV ''a'', StrV ''b'', Leaf 2]"
proof (intro conjI)
  have a: "appended visit (NodeV n) = Inr elems"
    using assms by (simp add: appended_simps)
  show "visit_list_body visit (NodeV n) st = Inr (st\<lparr>new_list := new_list st @ elems\<rparr>)"
    using a by (simp add: visit_list_body_appended[of visit "NodeV n"])
  show "RecursiveTreeTransformer_visit_list visit (NodeV n # rest)
           = (case RecursiveTreeTransformer_visit_list visit rest of
                Inl e \<Rightarrow> Inl e
              | Inr rebuilt \<Rightarrow> Inr (elems @ rebuilt))"
    using a by (simp add: Transformer_visit_list_Cons)
  show "\<forall>s. r = StrV s \<longrightarrow> elems = map (\<lambda>c. StrV [c]) s"
    using assms(2) by auto
  show "\<forall>xs. r = TupleV xs \<longrightarrow> elems = xs"
    using assms(2) by auto
  show "RecursiveTreeTransformer_visit_list (RecursiveTreeTransformer_visit example_transformer)
           [Leaf 1, NodeV (Node textC []), Leaf 2]
           = Inr [Leaf 1, StrV ''a'', StrV ''b'', Leaf 2]"
    by (simp add: Transformer_visit_list_Cons Transformer_visit_list_Nil appended_simps
        example_transformer_visit)
qed

theorem iterable_result_is_spliced_witness:
  "RecursiveTreeTransformer_visit example_transformer (Node textC []) = Inr (StrV ''ab'') \<and>
   py_iter (StrV ''ab'') = Some [StrV ''a'', StrV ''b''] \<and>
   visit_list_body (RecursiveTreeTransformer_visit example_transformer) (NodeV (Node textC []))
       \<lparr>original_list = [NodeV (Node textC [])], new_list = [Leaf 1]\<rparr>
     = Inr \<lparr>original_list = [NodeV (Node textC [])], new_list = [Leaf 1, StrV ''a'', StrV ''b'']\<rparr> \<and>
   RecursiveTreeTransformer_visit_list (RecursiveTreeTransformer_visit example_transformer)
       [NodeV (Node textC [])]
     = Inr [StrV ''a'', StrV ''b'']"
  using iterable_result_is_spliced
    [of "RecursiveTreeTransformer_visit example_transformer" "Node textC []" "StrV ''ab''"
        "[StrV ''a'', StrV ''b'']" "\<lparr>original_list = [NodeV (Node textC [])], new_list = [Leaf 1]\<rparr>" "[]"]
  by (simp add: example_transformer_visit Transformer_visit_list_Nil)

text \<open>
  C8. No iteration of the loop of \<open>_visit_list\<close> changes the list it reads: an iteration
  only appends to \<open>new_list\<close>, and the loop, from any position, ends with the list it
  started with. The result of \<open>_visit_list\<close> is the \<open>new_list\<close> of the state the whole
  loop ends in: the old content is replaced once, after the last iteration.
\<close>

theorem original_list_replaced_after_pass:
  "(visit_list_body visit value st = Inr st' \<longrightarrow>
      original_list st' = original_list st \<and> (\<exists>elems. new_list st' = new_list st @ elems)) \<and>
   (visit_list_loop visit i st = Inr st'' \<longrightarrow> original_list st'' = original_list st) \<and>
   (RecursiveTreeTransformer_visit_list visit original = Inr result \<longrightarrow>
      (\<exists>final. visit_list_loop visit 0 \<lparr>original_list = original, new_list = []\<rparr> = Inr final \<and>
               original_list final = original \<and> result = new_list final))"
proof (intro conjI impI)
  assume b: "visit_list_body visit value st = Inr st'"
  then show "original_list st' = original_list st"
    by (rule visit_list_body_original)
  show "\<exists>elems. new_list st' = new_list st @ elems"
  proof (cases "appended visit value")
    case (Inl e)
    with b show ?thesis
      unfolding visit_list_body_appended[of visit "value" st] by simp
  next
    case (Inr elems)
    with b have "st' = st\<lparr>new_list := new_list st @ elems\<rparr>"
      unfolding visit_list_body_appended[of visit "value" st] by simp
    then show ?thesis by simp
  qed
next
  assume "visit_list_loop visit i st = Inr st''"
  then show "original_list st'' = original_list st" by (rule visit_list_loop_original)
next
  assume r: "RecursiveTreeTransformer_visit_list visit original = Inr result"
  obtain final where f: "visit_list_loop visit 0 \<lparr>original_list = original, new_list = []\<rparr> = Inr final"
    and res: "result = new_list final"
    using r unfolding RecursiveTreeTransformer_visit_list_def
    by (cases "visit_list_loop visit 0 \<lparr>original_list = original, new_list = []\<rparr>") simp_all
  have "original_list final = original" using visit_list_loop_original[OF f] by simp
  with f res show "\<exists>final. visit_list_loop visit 0 \<lparr>original_list = original, new_list = []\<rparr> = Inr final \<and>
               original_list final = original \<and> result = new_list final"
    by blast
qed

theorem original_list_replaced_after_pass_witness:
  "visit_list_body (RecursiveTreeTransformer_visit example_transformer) (NodeV (Node spliceC []))
       \<lparr>original_list = [Leaf 7, NodeV (Node spliceC []), NodeV (Node deleteC [])], new_list = [Leaf 7]\<rparr>
     = Inr \<lparr>original_list = [Leaf 7, NodeV (Node spliceC []), NodeV (Node deleteC [])],
            new_list = [Leaf 7, NodeV (keep_node ''x''), NodeV (keep_node ''y'')]\<rparr> \<and>
   visit_list_loop (RecursiveTreeTransformer_visit example_transformer) 0
       \<lparr>original_list = [Leaf 7, NodeV (Node spliceC []), NodeV (Node deleteC [])], new_list = []\<rparr>
     = Inr \<lparr>original_list = [Leaf 7, NodeV (Node spliceC []), NodeV (Node deleteC [])],
            new_list = [Leaf 7, NodeV (keep_node ''x''), NodeV (keep_node ''y'')]\<rparr> \<and>
   RecursiveTreeTransformer_visit_list (RecursiveTreeTransformer_visit example_transformer)
       [Leaf 7, NodeV (Node spliceC []), NodeV (Node deleteC [])]
     = Inr [Leaf 7, NodeV (keep_node ''x''), NodeV (keep_node ''y'')]"
  using original_list_replaced_after_pass
    [of "RecursiveTreeTransformer_visit example_transformer" "NodeV (Node spliceC [])"
        "\<lparr>original_list = [Leaf 7, NodeV (Node spliceC []), NodeV (Node deleteC [])], new_list = [Leaf 7]\<rparr>"
        "\<lparr>original_list = [Leaf 7, NodeV (Node spliceC []), NodeV (Node deleteC [])],
            new_list = [Leaf 7, NodeV (keep_node ''x''), NodeV (keep_node ''y'')]\<rparr>"
        0
        "\<lparr>original_list = [Leaf 7, NodeV (Node spliceC []), NodeV (Node deleteC [])],
            new_list = [Leaf 7, NodeV (keep_node ''x''), NodeV (keep_node ''y'')]\<rparr>"
        "[Leaf 7, NodeV (Node spliceC []), NodeV (Node deleteC [])]"
        "[Leaf 7, NodeV (keep_node ''x''), NodeV (keep_node ''y'')]"]
  by (simp add: visit_list_loop_rebuild visit_list_body_appended appended_simps
      example_transformer_visit Transformer_visit_list_Cons Transformer_visit_list_Nil)

section \<open>The default fallback and the delete outcome of the mutating traversal\<close>

lemmas eval_defs =
  BaseTreeVisitor_visit_def BaseTreeVisitor_resolve_def RecursiveTreeTransformer_generic_visit_def
  RecursiveTreeTransformer_children_visit_def iter_fields_def transformer_field_def
  delattr_def setattr_def store_list_def getattr_def
  Transformer_visit_list_Cons Transformer_visit_list_Nil appended_simps

text \<open>
  C1. The mutating traversal with no handler registered is not the identity. Its
  \<open>generic_visit\<close> returns \<open>None\<close>, which the caller reads as the delete outcome: \<open>visit\<close>
  of the root returns \<open>None\<close>, not the tree, and \<open>children_visit\<close> of the root
  \<open>Pair(left=Keep('x'), right=3, body=[Keep('y'), 1])\<close> sets \<open>left\<close> to \<open>None\<close> and drops the
  Node from \<open>body\<close>.
\<close>

theorem default_fallback_deletes_children:
  "RecursiveTreeTransformer_visit default_transformer
     (Node pairC [(''left'', NodeV (keep_node ''x'')), (''right'', Leaf 3),
                  (''body'', ListV [NodeV (keep_node ''y''), Leaf 1])])
     = Inr NoneV \<and>
   RecursiveTreeTransformer_children_visit (RecursiveTreeTransformer_visit default_transformer)
     (Node pairC [(''left'', NodeV (keep_node ''x'')), (''right'', Leaf 3),
                  (''body'', ListV [NodeV (keep_node ''y''), Leaf 1])])
     = Inr (Node pairC [(''right'', Leaf 3), (''body'', ListV [Leaf 1]), (''left'', NoneV)]) \<and>
   iter_fields (Node pairC [(''right'', Leaf 3), (''body'', ListV [Leaf 1]), (''left'', NoneV)])
     = [(''left'', NoneV), (''right'', Leaf 3), (''body'', ListV [Leaf 1])]"
  by (simp add: Transformer_visit_unfold eval_defs default_transformer_def pairC_def example_defs)

text \<open>
  For any node and any field it has, the delete outcome and the explicit-null outcome
  leave the same attributes behind: the field is there and holds \<open>None\<close>.
\<close>

lemma delete_and_null_agree:
  assumes "field \<in> fst ` set (attrs node)"
    and "visit_delete child = Inr NoneV" and "visit_null child = Inr Sentinel"
  shows "\<exists>deleted nulled.
           transformer_field visit_delete field (NodeV child) node = Inr deleted \<and>
           transformer_field visit_null field (NodeV child) node = Inr nulled \<and>
           cls deleted = cls nulled \<and>
           map_of (attrs deleted) = map_of (attrs nulled) \<and>
           map_of (attrs deleted) field = Some NoneV"
  using assms
  by (simp add: transformer_field_def delattr_def setattr_def update_conv' delete_conv')

text \<open>
  C2. The delete outcome does not remove a single-child field. In
  \<open>Pair(left=Delete(), right=Null())\<close> the visit of \<open>left\<close> returns \<open>None\<close> (delete) and the
  visit of \<open>right\<close> returns the sentinel (explicit null). After \<open>children_visit\<close> both
  fields are present and hold \<open>None\<close>: the \<open>setattr\<close> that follows the \<open>delattr\<close> puts
  the field back, and the enumeration reports both.
\<close>

theorem delete_outcome_leaves_field_present:
  "RecursiveTreeTransformer_children_visit (RecursiveTreeTransformer_visit example_transformer)
     (Node pairC [(''left'', NodeV (Node deleteC [])), (''right'', NodeV (Node nullC []))])
     = Inr (Node pairC [(''right'', NoneV), (''left'', NoneV)]) \<and>
   iter_fields (Node pairC [(''right'', NoneV), (''left'', NoneV)])
     = [(''left'', NoneV), (''right'', NoneV)] \<and>
   map_of (attrs (Node pairC [(''right'', NoneV), (''left'', NoneV)])) ''left''
     = map_of (attrs (Node pairC [(''right'', NoneV), (''left'', NoneV)])) ''right''"
  by (simp add: Transformer_visit_unfold eval_defs pairC_def example_defs)

text \<open>
  C3. The generic fallback of the mutating traversal runs \<open>children_visit\<close> and returns
  \<open>None\<close>: for no visitor and no node does it return the node, or any Node at all.
\<close>

theorem generic_visit_returns_None:
  "RecursiveTreeTransformer_generic_visit self node \<noteq> Inr (NodeV node) \<and>
   (\<forall>kept. RecursiveTreeTransformer_generic_visit self node \<noteq> Inr (NodeV kept)) \<and>
   RecursiveTreeTransformer_generic_visit default_transformer (keep_node ''x'') = Inr NoneV \<and>
   RecursiveTreeTransformer_visit default_transformer (keep_node ''x'') = Inr NoneV"
  by (simp add: Transformer_visit_unfold eval_defs default_transformer_def example_defs split: sum.splits)

end
